theory Spec2Isabelle
  imports Main "HOL-Library.Word"
begin

section \<open>Strings, machine integers and the allocator\<close>

text \<open>
  A C string is modelled by the list of its bytes before the terminating NUL, and a
  pointer into a string by the suffix that starts there: \<open>*p\<close> is the head of the list
  (NUL when the list is empty) and \<open>p + 1\<close> is its tail. \<open>unsigned\<close> is a 32-bit word.
  The conversion \<open>(unsigned)*p\<close> of a plain \<open>char\<close> depends on the target: plain
  \<open>char\<close> is signed on x86 and unsigned on ARM, so the conversion takes the signedness as
  a parameter.
\<close>

type_synonym unsigned = "32 word"

definition to_unsigned :: "bool \<Rightarrow> char \<Rightarrow> unsigned" where
  "to_unsigned char_signed c =
     (if char_signed then scast (of_char c :: 8 word) else ucast (of_char c :: 8 word))"

text \<open>
  \<open>malloc\<close> can fail. The allocator is the list of the outcomes of the coming calls
  (\<open>True\<close>: the call succeeds); once the list is used up every call succeeds.
\<close>

type_synonym allocator = "bool list"

fun malloc :: "allocator \<Rightarrow> bool \<times> allocator" where
  "malloc [] = (True, [])"
| "malloc (ok # rest) = (ok, rest)"

text \<open>The lines \<open>LOGIT\<close> writes, by the call that writes them and its arguments.\<close>

datatype target = Funame string | Address unsigned

datatype logline =
    Malloc_failed
  | Mkstemp_failed
  | Bad_signal string
  | Trace string unsigned unsigned string string target
  | Async_trace string unsigned unsigned unsigned

section \<open>fgrep matching\<close>

text \<open>
  \<open>struct word_st\<close>. The \<open>next\<close> pointers are the list the words stand in; \<open>word_w\<close>
  points into the string the word was cut from, so it is the suffix that starts at the
  word, not the word alone.
\<close>

record word_st =
  hash :: unsigned
  length_w :: unsigned
  word_w :: string

text \<open>\<open>hash_path\<close>: the loop over \<open>path\<close>, then the function.\<close>

fun hash_path_loop :: "bool \<Rightarrow> word_st \<Rightarrow> string \<Rightarrow> word_st" where
  "hash_path_loop cs w [] = w"
| "hash_path_loop cs w (c # path) =
     (if c \<noteq> CHR ''/''
      then hash_path_loop cs
             (w\<lparr>hash := hash w + to_unsigned cs c, length_w := length_w w + 1\<rparr>) path
      else hash_path_loop cs \<lparr>hash = 0, length_w = 0, word_w = path\<rparr> path)"

definition hash_path :: "bool \<Rightarrow> string \<Rightarrow> word_st" where
  "hash_path cs path = hash_path_loop cs \<lparr>hash = 0, length_w = 0, word_w = path\<rparr> path"

text \<open>
  \<open>memcmp(a, b, n)\<close> is zero exactly when the first \<open>n\<close> bytes agree. Both calls of the
  program compare inside the two strings.
\<close>

definition memcmp :: "string \<Rightarrow> string \<Rightarrow> nat \<Rightarrow> int" where
  "memcmp a b n = (if take n a = take n b then 0 else 1)"

text \<open>
  \<open>match_words\<close>: \<open>None\<close> is the null pointer, \<open>Some b\<close> the pointer to the basename
  \<open>b\<close> inside \<open>path\<close>. Each \<open>continue\<close> of the do-while goes to \<open>words = words->next\<close>.
\<close>

fun match_words_loop :: "word_st \<Rightarrow> word_st list \<Rightarrow> string option" where
  "match_words_loop iword [] = None"
| "match_words_loop iword (w # words) =
     (if hash iword \<noteq> hash w then match_words_loop iword words
      else if length_w iword \<noteq> length_w w then match_words_loop iword words
      else if memcmp (word_w iword) (word_w w) (unat (length_w iword)) \<noteq> 0
        then match_words_loop iword words
      else Some (word_w iword))"

definition match_words :: "bool \<Rightarrow> word_st list \<Rightarrow> string \<Rightarrow> string option" where
  "match_words cs words path =
     (if words = [] then None else match_words_loop (hash_path cs path) words)"

text \<open>
  \<open>mkwords\<close>: the result is the list (null when empty), the diagnostics written and the
  allocator left. The loop runs with \<open>*str\<close> not NUL; \<open>word\<close> is the entry being filled,
  the last of the list built so far.
\<close>

fun mkwords_loop ::
  "bool \<Rightarrow> allocator \<Rightarrow> word_st \<Rightarrow> string \<Rightarrow> word_st list \<times> logline list \<times> allocator" where
  "mkwords_loop cs m word [] = ([word], [], m)"
| "mkwords_loop cs m word (c # str) =
     (if c \<noteq> CHR '':''
      then mkwords_loop cs m
             (word\<lparr>hash := hash word + to_unsigned cs c, length_w := length_w word + 1\<rparr>) str
      else (case malloc m of
              (False, m') \<Rightarrow> ([word], [Malloc_failed], m')
            | (True, m') \<Rightarrow>
                (case mkwords_loop cs m' \<lparr>hash = 0, length_w = 0, word_w = str\<rparr> str of
                   (ws, out, m'') \<Rightarrow> (word # ws, out, m''))))"

definition mkwords ::
  "bool \<Rightarrow> allocator \<Rightarrow> string \<Rightarrow> word_st list \<times> logline list \<times> allocator" where
  "mkwords cs m str =
     (if str = [] then ([], [], m)
      else (case malloc m of
              (False, m') \<Rightarrow> ([], [Malloc_failed], m')
            | (True, m') \<Rightarrow> mkwords_loop cs m' \<lparr>hash = 0, length_w = 0, word_w = str\<rparr> str))"

text \<open>
  The reading of a word list in the specification's words: the basename of a path is what
  follows its last \<open>/\<close> (all of it when there is none), and the segments of a list string
  are what its colons separate; the empty string has no segment.
\<close>

definition basename :: "string \<Rightarrow> string" where
  "basename x = rev (takeWhile (\<lambda>c. c \<noteq> CHR ''/'') (rev x))"

fun split_colon :: "string \<Rightarrow> string list" where
  "split_colon [] = [[]]"
| "split_colon (c # cs) =
     (if c = CHR '':'' then [] # split_colon cs
      else (c # hd (split_colon cs)) # tl (split_colon cs))"

definition segments :: "string \<Rightarrow> string list" where
  "segments s = (if s = [] then [] else split_colon s)"

subsection \<open>The word list of a list string\<close>

text \<open>
  \<open>hsum\<close> is the additive hash of a run of bytes, and \<open>word_ok seg w\<close> says that the
  entry \<open>w\<close> stands for the segment \<open>seg\<close>: its hash and length are those of \<open>seg\<close>,
  and \<open>seg\<close> is what its pointer points at.
\<close>

definition hsum :: "bool \<Rightarrow> string \<Rightarrow> unsigned" where
  "hsum cs seg = sum_list (map (to_unsigned cs) seg)"

definition word_ok :: "bool \<Rightarrow> string \<Rightarrow> word_st \<Rightarrow> bool" where
  "word_ok cs seg w =
     (hash w = hsum cs seg \<and> length_w w = of_nat (length seg) \<and> take (length seg) (word_w w) = seg)"

lemma hsum_snoc: "hsum cs (pre @ [c]) = hsum cs pre + to_unsigned cs c"
  by (simp add: hsum_def)

lemma basename_no_slash: "CHR ''/'' \<notin> set x \<Longrightarrow> basename x = x"
proof -
  assume "CHR ''/'' \<notin> set x"
  then have "takeWhile (\<lambda>c. c \<noteq> CHR ''/'') (rev x) = rev x"
    by (intro takeWhile_eq_all_conv [THEN iffD2]) auto
  then show ?thesis unfolding basename_def by (simp only: rev_rev_ident)
qed

lemma takeWhile_stop: "\<not> P z \<Longrightarrow> takeWhile P (xs @ z # ys) = takeWhile P xs"
  by (induction xs) auto

lemma basename_slash: "basename (x @ CHR ''/'' # y) = basename y"
proof -
  have "rev (x @ CHR ''/'' # y) = rev y @ CHR ''/'' # rev x" by simp
  then show ?thesis unfolding basename_def by (simp only: takeWhile_stop simp_thms)
qed

lemma hash_path_loop_basename:
  "CHR ''/'' \<notin> set pre \<Longrightarrow>
   hash_path_loop cs \<lparr>hash = hsum cs pre, length_w = of_nat (length pre), word_w = pre @ path\<rparr> path =
   \<lparr>hash = hsum cs (basename (pre @ path)),
    length_w = of_nat (length (basename (pre @ path))),
    word_w = basename (pre @ path)\<rparr>"
proof (induction path arbitrary: pre)
  case Nil
  then show ?case by (simp add: basename_no_slash)
next
  case (Cons c path)
  show ?case
  proof (cases "c = CHR ''/''")
    case True
    have "hash_path_loop cs \<lparr>hash = hsum cs [], length_w = of_nat (length ([]::string)), word_w = [] @ path\<rparr> path =
      \<lparr>hash = hsum cs (basename ([] @ path)), length_w = of_nat (length (basename ([] @ path))),
       word_w = basename ([] @ path)\<rparr>"
      by (rule Cons.IH) simp
    with True show ?thesis by (simp add: basename_slash hsum_def)
  next
    case False
    with Cons.prems have "CHR ''/'' \<notin> set (pre @ [c])" by simp
    from Cons.IH [OF this] False show ?thesis by (simp add: hsum_snoc add.commute)
  qed
qed

lemma hash_path_basename:
  "hash_path cs path =
   \<lparr>hash = hsum cs (basename path), length_w = of_nat (length (basename path)),
    word_w = basename path\<rparr>"
  using hash_path_loop_basename [of "[]" cs path] by (simp add: hash_path_def hsum_def)

lemma split_colon_nonempty: "split_colon s \<noteq> []"
  by (induction s) auto



lemma split_colon_length: "\<forall>seg \<in> set (split_colon s). length seg \<le> length s"
proof (induction s)
  case Nil
  then show ?case by simp
next
  case (Cons c s)
  obtain h t where ht: "split_colon s = h # t"
    using split_colon_nonempty [of s] by (cases "split_colon s") auto
  with Cons.IH show ?case by (auto simp: le_SucI)
qed

lemma basename_length: "length (basename x) \<le> length x"
  unfolding basename_def
  by (metis length_rev length_takeWhile_le)

lemma of_nat_eq_32:
  "a < 2 ^ 32 \<Longrightarrow> b < 2 ^ 32 \<Longrightarrow> (of_nat a :: unsigned) = of_nat b \<longleftrightarrow> a = b"
  by (simp add: word_of_nat_eq_iff take_bit_nat_eq_self)

lemma match_words_loop_ok:
  assumes "list_all2 (word_ok cs) segs ws"
    and "length b < 2 ^ 32" and "\<forall>seg \<in> set segs. length seg < 2 ^ 32"
  shows "match_words_loop \<lparr>hash = hsum cs b, length_w = of_nat (length b), word_w = b\<rparr> ws =
         (if b \<in> set segs then Some b else None)"
  using assms
proof (induction segs ws rule: list_all2_induct)
  case Nil
  then show ?case by simp
next
  case (Cons seg segs w ws)
  have bseg: "length seg < 2 ^ 32" using Cons.prems by simp
  have un: "unat (of_nat (length b) :: unsigned) = length b"
    using Cons.prems(1) by (simp add: unat_of_nat)
  show ?case
  proof (cases "b = seg")
    case True
    with Cons.hyps(1) un show ?thesis by (simp add: word_ok_def memcmp_def)
  next
    case False
    have "\<not> (hash w = hsum cs b \<and> length_w w = of_nat (length b) \<and> take (length b) (word_w w) = take (length b) b)"
    proof
      assume h: "hash w = hsum cs b \<and> length_w w = of_nat (length b) \<and> take (length b) (word_w w) = take (length b) b"
      with Cons.hyps(1) have "(of_nat (length seg) :: unsigned) = of_nat (length b)"
        by (simp add: word_ok_def)
      then have "length seg = length b"
        using of_nat_eq_32 [OF bseg Cons.prems(1)] by simp
      with h Cons.hyps(1) have "seg = b" by (simp add: word_ok_def)
      with False show False by simp
    qed
    moreover have "match_words_loop \<lparr>hash = hsum cs b, length_w = of_nat (length b), word_w = b\<rparr> ws =
         (if b \<in> set segs then Some b else None)"
      using Cons.IH Cons.prems by simp
    ultimately show ?thesis using False un
      by (auto simp: memcmp_def)
  qed
qed






section \<open>Extended glob matching\<close>

text \<open>
  \<open>find_end_of_glob\<close>: the pointer after the first \<open>c\<close> of \<open>str\<close> in the outermost grouping
  scope, or null.
\<close>

fun find_end_of_glob_loop :: "unsigned \<Rightarrow> string \<Rightarrow> char \<Rightarrow> string option" where
  "find_end_of_glob_loop depth [] c = None"
| "find_end_of_glob_loop depth (x # str) c =
     (if depth = 0 \<and> x = c then Some str
      else if x = CHR ''('' then find_end_of_glob_loop (depth + 1) str c
      else if x = CHR '')''
        then (if depth > 0 then find_end_of_glob_loop (depth - 1) str c else None)
      else find_end_of_glob_loop depth str c)"

definition find_end_of_glob :: "string \<Rightarrow> char \<Rightarrow> string option" where
  "find_end_of_glob str c = find_end_of_glob_loop 0 str c"

lemma find_end_of_glob_loop_shorter:
  "find_end_of_glob_loop depth str c = Some r \<Longrightarrow> length r < length str"
  by (induction depth str c rule: find_end_of_glob_loop.induct) (auto split: if_splits)

lemma find_end_of_glob_shorter:
  "find_end_of_glob str c = Some r \<Longrightarrow> length r < length str"
  unfolding find_end_of_glob_def by (rule find_end_of_glob_loop_shorter)

text \<open>
  \<open>match_glob\<close> and \<open>match_eglob\<close>. Each turn of the \<open>for (;;)\<close> of \<open>match_glob\<close> is a
  call of the function on what is left of the pattern and of the string; \<open>match_star\<close> is
  the do-while of the \<open>*\<close> case, which tries the rest of the pattern at \<open>str\<close>,
  \<open>str + 1\<close>, ... up to the terminating NUL. A \<open>:\<close> with no closing \<open>)\<close> after it falls
  through to the NUL case.
\<close>

function match_glob :: "string \<Rightarrow> string \<Rightarrow> bool"
  and match_star :: "string \<Rightarrow> string \<Rightarrow> bool"
  and match_eglob :: "string \<Rightarrow> string \<Rightarrow> bool" where
  "match_glob [] str = (str = [])"
| "match_glob (p # pattern) str =
     (if p = CHR ''('' then match_eglob pattern str
      else if p = CHR '')'' then match_glob pattern str
      else if p = CHR '':''
        then (case find_end_of_glob (p # pattern) (CHR '')'') of
                Some pattern' \<Rightarrow> match_glob pattern' str
              | None \<Rightarrow> str = [])
      else if p = CHR ''*'' then match_star pattern str
      else if p = CHR ''?''
        then (case str of [] \<Rightarrow> False | c # str' \<Rightarrow> match_glob pattern str')
      else (case str of [] \<Rightarrow> False
            | c # str' \<Rightarrow> if c \<noteq> p then False else match_glob pattern str'))"
| "match_star pattern str =
     (if match_glob pattern str then True
      else (case str of [] \<Rightarrow> False | c # str' \<Rightarrow> match_star pattern str'))"
| "match_eglob pattern str =
     (if match_glob pattern str then True
      else (case find_end_of_glob pattern (CHR '':'') of
              Some pattern' \<Rightarrow> match_eglob pattern' str
            | None \<Rightarrow> False))"
  by pat_completeness auto
termination
  by (relation "measures [
        (\<lambda>x. case x of Inl (p, s) \<Rightarrow> length p | Inr (Inl (p, s)) \<Rightarrow> length p | Inr (Inr (p, s)) \<Rightarrow> length p),
        (\<lambda>x. case x of Inl (p, s) \<Rightarrow> 0 | Inr (Inl (p, s)) \<Rightarrow> 1 | Inr (Inr (p, s)) \<Rightarrow> 1),
        (\<lambda>x. case x of Inl (p, s) \<Rightarrow> length s | Inr (Inl (p, s)) \<Rightarrow> length s | Inr (Inr (p, s)) \<Rightarrow> length s)]")
     (auto dest: find_end_of_glob_shorter)


section \<open>Function name resolution\<close>

text \<open>
  \<open>Elf32_Sym\<close> with the two fields \<open>getsym\<close> reads, and \<open>struct dso_st\<close>: \<open>strtab\<close> is the
  bytes from \<open>strtab\<close> to \<open>strend\<close> (NUL bytes included), \<open>symtab\<close> the entries from
  \<open>symtab\<close> to \<open>symend\<close>. Addresses are 32-bit words (\<open>Elf32_Addr\<close>), so
  \<open>base - NULL\<close>, \<open>addr - NULL\<close> and \<open>addr - base\<close> are the words themselves and their
  wrapping difference. \<open>strtab + st_name >= strend\<close> is modelled as the offset being at
  least the size of the table.
\<close>

record Elf32_Sym =
  st_name :: unsigned
  st_value :: unsigned

record dso_st =
  fname :: string
  strtab :: "char list"
  symtab :: "Elf32_Sym list"

fun getsym_loop ::
  "dso_st \<Rightarrow> unsigned \<Rightarrow> unsigned \<Rightarrow> Elf32_Sym option \<Rightarrow> unsigned \<Rightarrow> Elf32_Sym list
   \<Rightarrow> Elf32_Sym option" where
  "getsym_loop dso base addr closest diff [] = closest"
| "getsym_loop dso base addr closest diff (symb # syms) =
     (let eddr = (if st_value symb > base then addr else addr - base) in
      if eddr < st_value symb then getsym_loop dso base addr closest diff syms
      else
        let now = eddr - st_value symb in
        if closest = None \<or> diff > now then
          if unat (st_name symb) \<ge> length (strtab dso)
            then getsym_loop dso base addr closest diff syms
          else if strtab dso ! unat (st_name symb) = CHR ''$''
            then getsym_loop dso base addr closest diff syms
          else if now = 0 then Some symb
          else getsym_loop dso base addr (Some symb) now syms
        else getsym_loop dso base addr closest diff syms)"

text \<open>
  The C string a pointer into the string table points at: the bytes up to the next NUL.
\<close>

definition c_string :: "char list \<Rightarrow> nat \<Rightarrow> string" where
  "c_string tab off = takeWhile (\<lambda>c. c \<noteq> CHR 0x00) (drop off tab)"

definition getsym :: "dso_st \<Rightarrow> unsigned \<Rightarrow> unsigned \<Rightarrow> string option" where
  "getsym dso base addr =
     (case getsym_loop dso base addr None 0 (symtab dso) of
        None \<Rightarrow> None
      | Some closest \<Rightarrow>
          if unat (st_name closest) < length (strtab dso)
          then Some (c_string (strtab dso) (unat (st_name closest))) else None)"

text \<open>
  The symbol the specification asks for: the comparison address of a symbol, its gap,
  the symbols that qualify, and among them the one with the smallest gap, the earliest of
  them when several have it (\<open>arg_min_list\<close> keeps the earlier of two equal elements).
\<close>

definition comparison_address :: "unsigned \<Rightarrow> unsigned \<Rightarrow> Elf32_Sym \<Rightarrow> unsigned" where
  "comparison_address base pc symb = (if st_value symb > base then pc else pc - base)"

definition gap :: "unsigned \<Rightarrow> unsigned \<Rightarrow> Elf32_Sym \<Rightarrow> unsigned" where
  "gap base pc symb = comparison_address base pc symb - st_value symb"

definition qualifies :: "dso_st \<Rightarrow> unsigned \<Rightarrow> unsigned \<Rightarrow> Elf32_Sym \<Rightarrow> bool" where
  "qualifies dso base pc symb =
     (st_value symb \<le> comparison_address base pc symb \<and>
      unat (st_name symb) < length (strtab dso) \<and>
      strtab dso ! unat (st_name symb) \<noteq> CHR ''$'')"

definition nearest :: "dso_st \<Rightarrow> unsigned \<Rightarrow> unsigned \<Rightarrow> Elf32_Sym option" where
  "nearest dso base pc =
     (case filter (qualifies dso base pc) (symtab dso) of
        [] \<Rightarrow> None
      | c # cs \<Rightarrow> Some (arg_min_list (gap base pc) (c # cs)))"

lemma arg_min_list_drop_head:
  "f s < f c \<Longrightarrow> arg_min_list f (c # s # xs) = arg_min_list f (s # xs)"
  using f_arg_min_list_f [of "s # xs" f] by (auto simp: Let_def)

lemma arg_min_list_drop_second:
  "f c \<le> f s \<Longrightarrow> arg_min_list f (c # s # xs) = arg_min_list f (c # xs)"
  by (cases xs) (auto simp: Let_def)

lemma arg_min_list_zero:
  fixes f :: "'a \<Rightarrow> unsigned"
  shows "f s = 0 \<Longrightarrow> arg_min_list f (s # xs) = s"
  by (cases xs) (auto simp: Let_def)

lemma getsym_loop_step:
  "getsym_loop dso base pc closest diff (symb # syms) =
     (if qualifies dso base pc symb \<and> (closest = None \<or> gap base pc symb < diff)
      then (if gap base pc symb = 0 then Some symb
            else getsym_loop dso base pc (Some symb) (gap base pc symb) syms)
      else getsym_loop dso base pc closest diff syms)"
proof -
  define e where "e = comparison_address base pc symb"
  have e: "(if base < st_value symb then pc else pc - base) = e"
    by (simp add: e_def comparison_address_def)
  have q: "qualifies dso base pc symb \<longleftrightarrow>
    st_value symb \<le> e \<and> unat (st_name symb) < length (strtab dso) \<and>
    strtab dso ! unat (st_name symb) \<noteq> CHR ''$''"
    by (simp add: qualifies_def e_def)
  have g: "gap base pc symb = e - st_value symb"
    by (simp add: gap_def e_def)
  show ?thesis
    unfolding getsym_loop.simps(2) e q g Let_def
    by (auto simp: not_less not_le)
qed

lemma getsym_loop_some:
  "getsym_loop dso base pc (Some c) (gap base pc c) syms =
   Some (arg_min_list (gap base pc) (c # filter (qualifies dso base pc) syms))"
proof (induction syms arbitrary: c)
  case Nil
  then show ?case by simp
next
  case (Cons symb syms)
  show ?case
  proof (cases "qualifies dso base pc symb")
    case False
    then show ?thesis using Cons.IH [of c]
      by (simp add: getsym_loop_step del: getsym_loop.simps(2))
  next
    case True
    show ?thesis
    proof (cases "gap base pc symb < gap base pc c")
      case less: True
      show ?thesis
      proof (cases "gap base pc symb = 0")
        case z: True
        then have "arg_min_list (gap base pc) (symb # filter (qualifies dso base pc) syms) = symb"
          by (rule arg_min_list_zero)
        with less z True show ?thesis
          by (simp add: getsym_loop_step arg_min_list_drop_head
                del: getsym_loop.simps(2) arg_min_list.simps)
      next
        case False
        with less True Cons.IH [of symb] show ?thesis
          by (simp add: getsym_loop_step arg_min_list_drop_head
                del: getsym_loop.simps(2) arg_min_list.simps)
      qed
    next
      case False
      then have "gap base pc c \<le> gap base pc symb" by simp
      with False True Cons.IH [of c] show ?thesis
        by (simp add: getsym_loop_step arg_min_list_drop_second
              del: getsym_loop.simps(2) arg_min_list.simps)
    qed
  qed
qed

lemma getsym_loop_none:
  "getsym_loop dso base pc None d syms =
   (case filter (qualifies dso base pc) syms of
      [] \<Rightarrow> None
    | c # cs \<Rightarrow> Some (arg_min_list (gap base pc) (c # cs)))"
proof (induction syms)
  case Nil
  then show ?case by simp
next
  case (Cons symb syms)
  show ?case
  proof (cases "qualifies dso base pc symb")
    case False
    then show ?thesis using Cons.IH
      by (simp add: getsym_loop_step del: getsym_loop.simps(2))
  next
    case True
    show ?thesis
    proof (cases "gap base pc symb = 0")
      case z: True
      then have "arg_min_list (gap base pc) (symb # filter (qualifies dso base pc) syms) = symb"
        by (rule arg_min_list_zero)
      with z True show ?thesis
        by (simp add: getsym_loop_step del: getsym_loop.simps(2) arg_min_list.simps)
    next
      case False
      with True getsym_loop_some [of dso base pc symb syms] show ?thesis
        by (simp add: getsym_loop_step del: getsym_loop.simps(2) arg_min_list.simps)
    qed
  qed
qed

lemma nearest_qualifies:
  "nearest dso base pc = Some c \<Longrightarrow> qualifies dso base pc c"
proof -
  assume a: "nearest dso base pc = Some c"
  then obtain x xs where f: "filter (qualifies dso base pc) (symtab dso) = x # xs"
    and c: "c = arg_min_list (gap base pc) (x # xs)"
    by (auto simp: nearest_def split: list.splits)
  have "c \<in> set (x # xs)" unfolding c by (rule arg_min_list_in) simp
  then have "c \<in> set (filter (qualifies dso base pc) (symtab dso))" using f by simp
  then show ?thesis by simp
qed

text \<open>
  \<open>arg_min_list\<close> returns the first element of least value, so \<open>nearest\<close> is the
  earliest qualifying entry of the table whose gap is the smallest.
\<close>

lemma arg_min_list_first:
  "xs \<noteq> [] \<Longrightarrow>
   \<exists>i < length xs. arg_min_list f xs = xs ! i
      \<and> (\<forall>j < length xs. f (xs ! i) \<le> f (xs ! j))
      \<and> (\<forall>j < i. f (xs ! i) < f (xs ! j))"
proof (induction f xs rule: arg_min_list.induct)
  case (1 f x)
  then show ?case by simp
next
  case (2 f x y zs)
  let ?m = "arg_min_list f (y # zs)"
  from 2 obtain i where i: "i < length (y # zs)" "?m = (y # zs) ! i"
    "\<forall>j < length (y # zs). f ((y # zs) ! i) \<le> f ((y # zs) ! j)"
    "\<forall>j < i. f ((y # zs) ! i) < f ((y # zs) ! j)"
    by (metis list.distinct(1))
  show ?case
  proof (cases "f x \<le> f ?m")
    case True
    have "\<forall>j < length (x # y # zs). f x \<le> f ((x # y # zs) ! j)"
    proof (intro allI impI)
      fix j assume j: "j < length (x # y # zs)"
      show "f x \<le> f ((x # y # zs) ! j)"
      proof (cases j)
        case 0
        then show ?thesis by simp
      next
        case (Suc k)
        with j i(3) have "f ((y # zs) ! i) \<le> f ((y # zs) ! k)" by simp
        with True i(2) Suc show ?thesis by simp
      qed
    qed
    with True show ?thesis by (intro exI [of _ 0]) (simp add: Let_def)
  next
    case False
    have a: "arg_min_list f (x # y # zs) = (x # y # zs) ! Suc i"
      using False i(2) by (simp add: Let_def)
    have b: "\<forall>j < length (x # y # zs). f ((x # y # zs) ! Suc i) \<le> f ((x # y # zs) ! j)"
    proof (intro allI impI)
      fix j assume j: "j < length (x # y # zs)"
      show "f ((x # y # zs) ! Suc i) \<le> f ((x # y # zs) ! j)"
      proof (cases j)
        case 0
        with False i(2) show ?thesis by simp
      next
        case (Suc k)
        with j i(3) show ?thesis by simp
      qed
    qed
    have c: "\<forall>j < Suc i. f ((x # y # zs) ! Suc i) < f ((x # y # zs) ! j)"
    proof (intro allI impI)
      fix j assume j: "j < Suc i"
      show "f ((x # y # zs) ! Suc i) < f ((x # y # zs) ! j)"
      proof (cases j)
        case 0
        with False i(2) show ?thesis by simp
      next
        case (Suc k)
        with j i(4) show ?thesis by simp
      qed
    qed
    from a b c i(1) show ?thesis by (intro exI [of _ "Suc i"]) simp
  qed
next
  case (3 f)
  then show ?case by simp
qed

lemma nearest_first_minimum:
  assumes "nearest dso base pc = Some c"
  shows "\<exists>i < length (filter (qualifies dso base pc) (symtab dso)).
           filter (qualifies dso base pc) (symtab dso) ! i = c
         \<and> (\<forall>j < length (filter (qualifies dso base pc) (symtab dso)).
               gap base pc c \<le> gap base pc (filter (qualifies dso base pc) (symtab dso) ! j))
         \<and> (\<forall>j < i. gap base pc c < gap base pc (filter (qualifies dso base pc) (symtab dso) ! j))"
proof -
  let ?cs = "filter (qualifies dso base pc) (symtab dso)"
  from assms have ne: "?cs \<noteq> []" and c: "c = arg_min_list (gap base pc) ?cs"
    by (auto simp: nearest_def split: list.splits)
  from arg_min_list_first [OF ne, of "gap base pc"] show ?thesis
    unfolding c by metis
qed

text \<open>
  Claim C9. For every cached DSO and every address \<open>pc\<close>, \<open>getsym\<close> compares each symbol
  with \<open>pc\<close> itself when the symbol's value exceeds the load base and with \<open>pc\<close> minus the
  load base otherwise; among the symbols whose value is at most that comparison address,
  whose name offset lies inside the string table and whose name does not begin with \<open>$\<close>,
  it returns the name of the one with the smallest gap, the earliest such entry on a tie,
  and null when no symbol qualifies. Leaving the scan at a gap of zero does not change
  the result.
\<close>

theorem getsym_nearest:
  "getsym dso base pc =
     map_option (\<lambda>symb. c_string (strtab dso) (unat (st_name symb))) (nearest dso base pc)"
proof (cases "nearest dso base pc")
  case None
  then show ?thesis by (simp add: getsym_def getsym_loop_none nearest_def)
next
  case (Some c)
  then have "qualifies dso base pc c" by (rule nearest_qualifies)
  then have "unat (st_name c) < length (strtab dso)" by (simp add: qualifies_def)
  with Some show ?thesis by (simp add: getsym_def getsym_loop_none nearest_def)
qed

section \<open>The environment and the state of the library\<close>

text \<open>
  \<open>atoi\<close> of the C library, which is \<open>(int) strtol(nptr, NULL, 10)\<close>. \<open>strtol\<close> reads white
  space, an optional sign, then decimal digits up to the first byte that is none, and
  returns the number read, or \<open>LONG_MAX\<close> or \<open>LONG_MIN\<close> when the number is beyond the range
  of a \<open>long\<close>; the conversion to \<open>int\<close> keeps the low 32 bits. A \<open>long\<close> has 64 bits on an
  LP64 build and 32 bits otherwise.
\<close>

definition isspace :: "char \<Rightarrow> bool" where
  "isspace c = (c \<in> {CHR '' '', CHR 0x09, CHR 0x0A, CHR 0x0B, CHR 0x0C, CHR 0x0D})"

definition isdigit :: "char \<Rightarrow> bool" where
  "isdigit c = (48 \<le> (of_char c :: nat) \<and> (of_char c :: nat) \<le> 57)"

fun digits :: "int \<Rightarrow> string \<Rightarrow> int" where
  "digits acc [] = acc"
| "digits acc (c # s) =
     (if isdigit c then digits (10 * acc + (of_char c - 48)) s else acc)"

definition LONG_MAX :: "bool \<Rightarrow> int" where
  "LONG_MAX lp = (if lp then 2 ^ 63 - 1 else 2 ^ 31 - 1)"

definition LONG_MIN :: "bool \<Rightarrow> int" where
  "LONG_MIN lp = - LONG_MAX lp - 1"

definition strtol :: "bool \<Rightarrow> string \<Rightarrow> int" where
  "strtol lp s =
     (let v = (case dropWhile isspace s of
                 [] \<Rightarrow> 0
               | c # r \<Rightarrow>
                   if c = CHR ''-'' then - digits 0 r
                   else if c = CHR ''+'' then digits 0 r
                   else digits 0 (c # r))
      in if v > LONG_MAX lp then LONG_MAX lp
         else if v < LONG_MIN lp then LONG_MIN lp
         else v)"

definition to_int :: "int \<Rightarrow> int" where
  "to_int v = (v + 2 ^ 31) mod 2 ^ 32 - 2 ^ 31"

definition atoi :: "bool \<Rightarrow> string \<Rightarrow> int" where
  "atoi lp s = to_int (strtol lp s)"

text \<open>
  What \<open>dladdr\<close> fills in: null pointers are \<open>None\<close> for the two names and \<open>0\<close> for
  \<open>dli_saddr\<close>.
\<close>

record Dl_info =
  dli_fname :: "string option"
  dli_fbase :: unsigned
  dli_sname :: "string option"
  dli_saddr :: unsigned

text \<open>
  What the library reads and cannot change: the build (\<open>char\<close>'s signedness,
  \<open>__ARMEL__\<close>, whether a \<open>long\<close> has 64 bits), the environment, the dynamic loader's answer for an address, the string
  and symbol tables \<open>getelf\<close> finds in the file of a name (\<open>None\<close> when the file cannot be
  opened, examined or mapped, or is not an ELF image with both tables), and what
  \<open>mkstemp\<close> returns.
\<close>

record world =
  char_signed :: bool
  armel :: bool
  lp64 :: bool
  getenv :: "string \<Rightarrow> string option"
  dladdr :: "unsigned \<Rightarrow> Dl_info option"
  elf_tables :: "string \<Rightarrow> (char list \<times> Elf32_Sym list) option"
  mkstemp :: int

text \<open>
  The variables of the library: the three file-scope ones, then the \<open>static\<close> locals of
  \<open>report_dso\<close> (\<open>rd_\<close>), \<open>report_function\<close> (\<open>rf_\<close>), \<open>addr2name\<close> (\<open>seen\<close>) and
  \<open>print_trace\<close>; then what the library changes outside itself: the allocator, the lines
  written by \<open>LOGIT\<close>, the addresses written to the async file, whether
  \<open>resolve_backlog\<close> is registered with \<open>atexit\<close>, and the signals \<open>toggle_tracing\<close> is
  installed for. \<open>procinfo\<close> (the time and thread prefix of a line) is not modelled.
\<close>

record state =
  Tracing :: bool
  Callstack_depth :: unsigned
  Async_fd :: int
  rd_report_all :: bool
  rd_flist :: "word_st list"
  rd_is_whitelist :: bool
  rf_report_all :: bool
  rf_pattern :: "string option"
  rf_is_whitelist :: bool
  seen :: "dso_st list"
  depth_limit :: unsigned
  depth_limited :: int
  be_async :: int
  entries_only :: int
  indent :: int
  log_fname :: int
  heap :: allocator
  out :: "logline list"
  backlog :: "unsigned list"
  atexit_backlog :: bool
  handlers :: "int list"

definition initial :: "allocator \<Rightarrow> state" where
  "initial m =
     \<lparr>Tracing = True, Callstack_depth = 0, Async_fd = - 1,
      rd_report_all = False, rd_flist = [], rd_is_whitelist = False,
      rf_report_all = False, rf_pattern = None, rf_is_whitelist = False,
      seen = [],
      depth_limit = 0, depth_limited = - 1, be_async = - 1, entries_only = - 1,
      indent = - 1, log_fname = - 1,
      heap = m, out = [], backlog = [], atexit_backlog = False, handlers = []\<rparr>"

definition LOGIT :: "logline \<Rightarrow> state \<Rightarrow> state" where
  "LOGIT l s = s\<lparr>out := out s @ [l]\<rparr>"

text \<open>\<open>env[0] == '1'\<close>, for a string that may be empty.\<close>

definition first_is :: "char \<Rightarrow> string \<Rightarrow> bool" where
  "first_is c env = (case env of [] \<Rightarrow> False | x # r \<Rightarrow> x = c)"

section \<open>Report decisions\<close>

text \<open>
  \<open>getdso\<close>: the tables of the file, under the name it was asked for.
\<close>

definition getdso :: "world \<Rightarrow> string \<Rightarrow> dso_st option" where
  "getdso w name =
     (case elf_tables w name of
        None \<Rightarrow> None
      | Some (st, sy) \<Rightarrow> Some \<lparr>fname = name, strtab = st, symtab = sy\<rparr>)"

text \<open>
  \<open>mkwords\<close> run on the state: it takes the allocator from the state and writes its
  diagnostics there.
\<close>

definition mkwords_st :: "world \<Rightarrow> string \<Rightarrow> state \<Rightarrow> word_st list \<times> state" where
  "mkwords_st w env s =
     (case mkwords (char_signed w) (heap s) env of
        (ws, ls, m) \<Rightarrow> (ws, s\<lparr>heap := m, out := out s @ ls\<rparr>))"

text \<open>
  \<open>report_dso\<close>, in two parts: reading the environment if it has not been read, then
  the decision. The basename returned when no list decides is what follows the last
  \<open>/\<close> (\<open>strrchr\<close>).
\<close>

definition report_dso_init :: "world \<Rightarrow> state \<Rightarrow> state" where
  "report_dso_init w s =
     (if \<not> rd_report_all s \<and> rd_flist s = [] then
        (case (case getenv w ''TRACY_INLIBS'' of
                 None \<Rightarrow> ([], s)
               | Some env \<Rightarrow> mkwords_st w env s) of
           (fl, s1) \<Rightarrow>
             if fl \<noteq> [] then s1\<lparr>rd_flist := fl, rd_is_whitelist := True\<rparr>
             else
               (case (case getenv w ''TRACY_EXLIBS'' of
                        None \<Rightarrow> ([], s1)
                      | Some env \<Rightarrow> mkwords_st w env s1) of
                  (fl', s2) \<Rightarrow>
                    if fl' \<noteq> [] then s2\<lparr>rd_flist := fl', rd_is_whitelist := False\<rparr>
                    else s2\<lparr>rd_flist := [], rd_report_all := True\<rparr>))
      else s)"

definition report_dso :: "world \<Rightarrow> string \<Rightarrow> state \<Rightarrow> string option \<times> state" where
  "report_dso w name s0 =
     (let s = report_dso_init w s0 in
      if \<not> rd_report_all s then
        (case match_words (char_signed w) (rd_flist s) name of
           Some base \<Rightarrow> (if rd_is_whitelist s then Some base else None, s)
         | None \<Rightarrow>
             if rd_is_whitelist s then (None, s)
             else (Some (basename name), s))
      else (Some (basename name), s))"

text \<open>
  A pointer to a name: the null pointer, a pointer to a string that can be read, or a
  pointer into an ELF image that \<open>munmap\<close> has removed from the address space. Reading
  through the last one is a memory fault: the process is killed by \<open>SIGSEGV\<close> and the
  function that reads never returns. A function that may read such a pointer has an
  optional result, and \<open>None\<close> is the fault.
\<close>

datatype cstr = Null | Str string | Unmapped

text \<open>
  \<open>report_function\<close>. After the environment is read, \<open>pattern\<close> is null only when
  \<open>report_all\<close> is set, so \<open>match_eglob\<close> is never called on a null pattern. It is called
  on every name that is not null, and every path through \<open>match_glob\<close> reads \<open>*str\<close>
  before it returns.
\<close>

definition report_function_init :: "world \<Rightarrow> state \<Rightarrow> state" where
  "report_function_init w s =
     (if \<not> rf_report_all s \<and> rf_pattern s = None then
        (let p = getenv w ''TRACY_INFUNS'' in
         if p \<noteq> None \<and> the p \<noteq> [] then s\<lparr>rf_pattern := p, rf_is_whitelist := True\<rparr>
         else
           (let p' = getenv w ''TRACY_EXFUNS'' in
            if p' \<noteq> None \<and> the p' \<noteq> [] then s\<lparr>rf_pattern := p', rf_is_whitelist := False\<rparr>
            else s\<lparr>rf_pattern := p', rf_report_all := True\<rparr>))
      else s)"

definition report_function :: "world \<Rightarrow> cstr \<Rightarrow> state \<Rightarrow> (bool \<times> state) option" where
  "report_function w funame s0 =
     (let s = report_function_init w s0 in
      if rf_report_all s then Some (True, s)
      else
        (case funame of
           Null \<Rightarrow> Some (\<not> rf_is_whitelist s, s)
         | Unmapped \<Rightarrow> None
         | Str name \<Rightarrow>
             if rf_pattern s \<noteq> None \<and> match_eglob (the (rf_pattern s)) name
             then Some (rf_is_whitelist s, s)
             else Some (\<not> rf_is_whitelist s, s)))"

section \<open>Resolving an address\<close>

text \<open>
  \<open>addr2name\<close> returns its result (1: resolved, 0: the name was not found, -1: not to be
  reported) with what it stored through \<open>fnamep\<close> and \<open>funamep\<close> (null where it stored
  nothing). The cache \<open>seen\<close> is searched from its head for the entry of the loader's file
  name; the loader hands out one pointer per object, and the model compares the names.

  \<open>remember\<close> is the attempt to cache a new entry: when \<open>malloc\<close> fails it writes the
  diagnostic, unmaps the ELF image and closes the file, and the result \<open>False\<close> says that
  the image is gone. The name \<open>getsym\<close> found points into the string table of that image:
  \<open>in_image\<close> is that pointer while the image is mapped or after it was unmapped.

  \<open>answer\<close> is \<open>return report_function(name) ? yes : -1\<close>.
\<close>

definition remember :: "dso_st \<Rightarrow> state \<Rightarrow> bool \<times> state" where
  "remember newdso s =
     (case malloc (heap s) of
        (True, m) \<Rightarrow> (True, s\<lparr>heap := m, seen := newdso # seen s\<rparr>)
      | (False, m) \<Rightarrow> (False, LOGIT Malloc_failed (s\<lparr>heap := m\<rparr>)))"

definition in_image :: "bool \<Rightarrow> string option \<Rightarrow> cstr" where
  "in_image mapped name =
     (case name of None \<Rightarrow> Null | Some n \<Rightarrow> if mapped then Str n else Unmapped)"

definition answer ::
  "world \<Rightarrow> cstr \<Rightarrow> int \<Rightarrow> string \<Rightarrow> state \<Rightarrow> (int \<times> string \<times> cstr \<times> state) option" where
  "answer w funame yes fnm s =
     (case report_function w funame s of
        None \<Rightarrow> None
      | Some (r, s') \<Rightarrow> Some (if r then yes else - 1, fnm, funame, s'))"

definition addr2name ::
  "world \<Rightarrow> unsigned \<Rightarrow> state \<Rightarrow> (int \<times> string \<times> cstr \<times> state) option" where
  "addr2name w addr s =
     (case (case dladdr w addr of None \<Rightarrow> None | Some info \<Rightarrow>
              (case dli_fname info of None \<Rightarrow> None | Some nm \<Rightarrow> Some (info, nm))) of
        None \<Rightarrow> answer w Null 0 ''[???]'' s
      | Some (info, nm) \<Rightarrow>
          (case report_dso w nm s of
             (None, s1) \<Rightarrow> Some (- 1, ''[???]'', Null, s1)
           | (Some base, s1) \<Rightarrow>
               (case dli_sname info of
                  Some sname \<Rightarrow> answer w (Str sname) 1 base s1
                | None \<Rightarrow>
                    (let addr' = (if dli_saddr info \<noteq> 0 then dli_saddr info else addr) in
                     case find (\<lambda>dso. fname dso = nm) (seen s1) of
                       None \<Rightarrow>
                         (case getdso w nm of
                            None \<Rightarrow> answer w Null 0 base s1
                          | Some newdso \<Rightarrow>
                              (case remember newdso s1 of
                                 (mapped, s2) \<Rightarrow>
                                   (let funame = in_image mapped
                                                   (getsym newdso (dli_fbase info) addr')
                                    in answer w funame (if funame \<noteq> Null then 1 else 0)
                                         base s2)))
                     | Some dso \<Rightarrow>
                         (let funame = in_image True (getsym dso (dli_fbase info) addr')
                          in answer w funame (if funame \<noteq> Null then 1 else 0) base s1)))))"

section \<open>Printing the trace\<close>

text \<open>
  The steps of \<open>print_trace\<close> that read the environment on the first call that reaches
  them. \<open>depth_limit\<close> is \<open>atoi\<close>'s \<open>int\<close> stored in an \<open>unsigned\<close>.
\<close>

definition read_maxdepth :: "world \<Rightarrow> state \<Rightarrow> state" where
  "read_maxdepth w s =
     (if depth_limited s < 0 then
        (case getenv w ''TRACY_MAXDEPTH'' of
           None \<Rightarrow> s\<lparr>depth_limited := 0\<rparr>
         | Some env \<Rightarrow>
             if env \<noteq> []
             then s\<lparr>depth_limit := word_of_int (atoi (lp64 w) env), depth_limited := 1\<rparr>
             else s\<lparr>depth_limited := 0\<rparr>)
      else s)"

definition read_async :: "world \<Rightarrow> state \<Rightarrow> state" where
  "read_async w s =
     (if be_async s < 0 then
        (case getenv w ''TRACY_ASYNC'' of
           None \<Rightarrow> s\<lparr>be_async := 0\<rparr>
         | Some env \<Rightarrow>
             if first_is (CHR ''1'') env then
               (if mkstemp w < 0
                then LOGIT Mkstemp_failed (s\<lparr>Async_fd := mkstemp w, be_async := 0\<rparr>)
                else s\<lparr>Async_fd := mkstemp w, be_async := 1, atexit_backlog := True\<rparr>)
             else s\<lparr>be_async := 0\<rparr>)
      else s)"

definition read_entries_only :: "world \<Rightarrow> state \<Rightarrow> state" where
  "read_entries_only w s =
     (if entries_only s < 0 then
        (case getenv w ''TRACY_LOG_ENTRIES_ONLY'' of
           None \<Rightarrow> s\<lparr>entries_only := 0\<rparr>
         | Some env \<Rightarrow> s\<lparr>entries_only := (if first_is (CHR ''1'') env then 1 else 0)\<rparr>)
      else s)"

definition read_indent :: "world \<Rightarrow> state \<Rightarrow> state" where
  "read_indent w s =
     (if indent s < 0 then
        (case getenv w ''TRACY_LOG_INDENT'' of
           None \<Rightarrow> s\<lparr>indent := 0\<rparr>
         | Some env \<Rightarrow> s\<lparr>indent := atoi (lp64 w) env\<rparr>)
      else s)"

definition read_log_fname :: "world \<Rightarrow> state \<Rightarrow> state" where
  "read_log_fname w s =
     (if log_fname s < 0 then
        (case getenv w ''TRACY_LOG_FNAME'' of
           None \<Rightarrow> s\<lparr>log_fname := 1\<rparr>
         | Some env \<Rightarrow> s\<lparr>log_fname := (if first_is (CHR ''1'') env then 1 else 0)\<rparr>)
      else s)"

text \<open>
  The argument of \<open>%*s\<close>: \<open>1 + indent*Callstack_depth\<close>, computed in \<open>unsigned\<close>.
\<close>

definition indent_width :: "state \<Rightarrow> unsigned" where
  "indent_width s = 1 + word_of_int (indent s) * Callstack_depth s"

text \<open>
  The \<open>LOGIT\<close> of a resolved name: \<open>%s\<close> reads the name. \<open>addr2name\<close> returns 1 with a
  name that is not null; for a null pointer the C library prints \<open>(null)\<close>.
\<close>

definition log_resolved ::
  "string \<Rightarrow> string \<Rightarrow> string \<Rightarrow> cstr \<Rightarrow> state \<Rightarrow> state option" where
  "log_resolved dir fnm colon funame s =
     (case funame of
        Str name \<Rightarrow>
          Some (LOGIT (Trace dir (Callstack_depth s) (indent_width s) fnm colon (Funame name)) s)
      | Null \<Rightarrow>
          Some (LOGIT (Trace dir (Callstack_depth s) (indent_width s) fnm colon
                         (Funame ''(null)'')) s)
      | Unmapped \<Rightarrow> None)"

text \<open>
  \<open>print_trace\<close>. \<open>bt\<close> is what \<open>backtrace(addrs, 3)\<close> gives at this call: the frames it
  stored, three at most. The result is the returned \<open>int\<close> and the state, or \<open>None\<close> when
  the call ends in a memory fault.
\<close>

definition print_trace ::
  "world \<Rightarrow> unsigned list \<Rightarrow> unsigned \<Rightarrow> string \<Rightarrow> state \<Rightarrow> (int \<times> state) option" where
  "print_trace w bt addr0 dir0 s0 =
     (let s1 = read_maxdepth w s0 in
      if depth_limited s1 \<noteq> 0 \<and> Callstack_depth s1 \<ge> depth_limit s1 then Some (1, s1)
      else if \<not> armel w \<and> length bt < 3 then Some (1, s1)
      else
        (let addr = (if armel w then addr0 else bt ! 2);
             s2 = read_async w s1;
             is_entry = first_is (CHR ''E'') dir0;
             s3 = read_entries_only w s2;
             dir = (if entries_only s3 \<noteq> 0 then [] else dir0);
             s4 = read_indent w s3
         in
         if Async_fd s4 \<ge> 0 then
           (let s5 = (if entries_only s4 = 0 \<or> is_entry
                      then LOGIT (Async_trace dir (Callstack_depth s4) (indent_width s4) addr) s4
                      else s4)
            in Some (1, if is_entry then s5\<lparr>backlog := backlog s5 @ [addr]\<rparr> else s5))
         else
           (case addr2name w addr s4 of
              None \<Rightarrow> None
            | Some (success, fnm, funame, s5) \<Rightarrow>
                if success < 0 then Some (0, s5)
                else if entries_only s5 \<noteq> 0 \<and> \<not> is_entry then Some (1, s5)
                else
                  (let s6 = read_log_fname w s5;
                       colon = (if log_fname s6 \<noteq> 0 then '':'' else []);
                       fnm' = (if log_fname s6 \<noteq> 0 then fnm else [])
                   in
                   if success \<noteq> 0
                   then map_option (Pair 1) (log_resolved dir fnm' colon funame s6)
                   else Some (1, LOGIT (Trace dir (Callstack_depth s6) (indent_width s6)
                                          fnm' colon (Address addr)) s6)))))"

section \<open>The entry points\<close>

text \<open>
  \<open>__cyg_profile_func_enter\<close> and \<open>__cyg_profile_func_exit\<close> (\<open>callsite\<close> is not used),
  \<open>toggle_tracing\<close>, and \<open>tracy_init\<close>. A hook does not return when \<open>print_trace\<close> does
  not.
\<close>

definition cyg_profile_func_enter ::
  "world \<Rightarrow> unsigned list \<Rightarrow> unsigned \<Rightarrow> state \<Rightarrow> state option" where
  "cyg_profile_func_enter w bt self s =
     (if \<not> Tracing s then Some s
      else (case print_trace w bt self ''ENTER'' s of
              None \<Rightarrow> None
            | Some (r, s') \<Rightarrow>
                Some (if r \<noteq> 0 then s'\<lparr>Callstack_depth := Callstack_depth s' + 1\<rparr> else s')))"

definition cyg_profile_func_exit ::
  "world \<Rightarrow> unsigned list \<Rightarrow> unsigned \<Rightarrow> state \<Rightarrow> state option" where
  "cyg_profile_func_exit w bt self s =
     (if \<not> Tracing s then Some s
      else (case print_trace w bt self ''LEAVE''
                   (s\<lparr>Callstack_depth := Callstack_depth s - 1\<rparr>) of
              None \<Rightarrow> None
            | Some (r, s') \<Rightarrow>
                Some (if r = 0 then s'\<lparr>Callstack_depth := Callstack_depth s' + 1\<rparr> else s')))"

definition toggle_tracing :: "state \<Rightarrow> state" where
  "toggle_tracing s = s\<lparr>Tracing := \<not> Tracing s\<rparr>"

text \<open>
  \<open>signal(signum, toggle_tracing)\<close> installs the handler for a signal the kernel lets a
  process catch, and fails without effect for any other number (Linux: 1 to 64, but
  neither \<open>SIGKILL\<close> nor \<open>SIGSTOP\<close>); \<open>tracy_init\<close> ignores its result. \<open>SIGPROF\<close> is 27.
\<close>

definition SIGPROF :: int where
  "SIGPROF = 27"

definition signal :: "int \<Rightarrow> state \<Rightarrow> state" where
  "signal signum s =
     (if 1 \<le> signum \<and> signum \<le> 64 \<and> signum \<noteq> 9 \<and> signum \<noteq> 19
      then s\<lparr>handlers := signum # handlers s\<rparr> else s)"

definition tracy_init :: "world \<Rightarrow> state \<Rightarrow> state" where
  "tracy_init w s =
     (case getenv w ''TRACY_SIGNAL'' of
        None \<Rightarrow> s
      | Some env \<Rightarrow>
          (if first_is (CHR ''y'') env \<or> first_is (CHR ''Y'') env
           then (signal SIGPROF s)\<lparr>Tracing := False\<rparr>
           else if atoi (lp64 w) env \<le> 0
             then (signal (atoi (lp64 w) env) (LOGIT (Bad_signal env) s))\<lparr>Tracing := False\<rparr>
           else (signal (atoi (lp64 w) env) s)\<lparr>Tracing := False\<rparr>))"

text \<open>
  What happens to the process: the compiler's hooks, and the delivery of a signal, which
  runs \<open>toggle_tracing\<close> when it is installed for that signal. A run of events ends with
  the first one that does not return.
\<close>

datatype event =
    Enter unsigned "unsigned list"
  | Leave unsigned "unsigned list"
  | Deliver int

fun step :: "world \<Rightarrow> state \<Rightarrow> event \<Rightarrow> state option" where
  "step w s (Enter self bt) = cyg_profile_func_enter w bt self s"
| "step w s (Leave self bt) = cyg_profile_func_exit w bt self s"
| "step w s (Deliver signum) =
     Some (if signum \<in> set (handlers s) then toggle_tracing s else s)"

fun run :: "world \<Rightarrow> state \<Rightarrow> event list \<Rightarrow> state option" where
  "run w s [] = Some s"
| "run w s (e # evs) = (case step w s e of None \<Rightarrow> None | Some s' \<Rightarrow> run w s' evs)"

section \<open>Properties of the trace\<close>

text \<open>
  The trace lines among the lines written, and the depth a trace line shows.
\<close>

fun is_trace :: "logline \<Rightarrow> bool" where
  "is_trace (Trace dir depth width fnm colon tgt) = True"
| "is_trace (Async_trace dir depth width addr) = True"
| "is_trace l = False"

definition traces :: "state \<Rightarrow> logline list" where
  "traces s = filter is_trace (out s)"

fun line_depth :: "logline \<Rightarrow> unsigned option" where
  "line_depth (Trace dir depth width fnm colon tgt) = Some depth"
| "line_depth (Async_trace dir depth width addr) = Some depth"
| "line_depth l = None"

text \<open>
  \<open>TRACY_MAXDEPTH\<close> has not been read yet, or it has been read from the value \<open>env\<close>;
  and: the environment configures a depth limit.
\<close>

definition maxdepth_read :: "bool \<Rightarrow> string \<Rightarrow> state \<Rightarrow> bool" where
  "maxdepth_read lp env s =
     (depth_limited s < 0
      \<or> (depth_limited s = 1 \<and> depth_limit s = word_of_int (atoi lp env)))"

definition limit_configured :: "world \<Rightarrow> state \<Rightarrow> bool" where
  "limit_configured w s =
     (case getenv w ''TRACY_MAXDEPTH'' of
        None \<Rightarrow> False
      | Some env \<Rightarrow> env \<noteq> [] \<and> maxdepth_read (lp64 w) env s)"

text \<open>
  \<open>TRACY_MAXDEPTH\<close> is unset or empty, and it has not been read yet or has been read as
  such.
\<close>

definition maxdepth_unset :: "world \<Rightarrow> state \<Rightarrow> bool" where
  "maxdepth_unset w s =
     ((case getenv w ''TRACY_MAXDEPTH'' of None \<Rightarrow> True | Some env \<Rightarrow> env = [])
      \<and> depth_limited s \<le> 0)"

text \<open>
  The first test of \<open>print_trace\<close>, after it has read \<open>TRACY_MAXDEPTH\<close>: the depth limit
  stops the call.
\<close>

definition limit_reached :: "world \<Rightarrow> state \<Rightarrow> bool" where
  "limit_reached w s =
     (depth_limited (read_maxdepth w s) \<noteq> 0
      \<and> depth_limit (read_maxdepth w s) \<le> Callstack_depth s)"

text \<open>The state in which \<open>print_trace\<close> tests \<open>Async_fd\<close> and calls \<open>addr2name\<close>.\<close>

definition before_addr2name :: "world \<Rightarrow> state \<Rightarrow> state" where
  "before_addr2name w s =
     read_indent w (read_entries_only w (read_async w (read_maxdepth w s)))"

text \<open>
  Synchronous mode: the async file is not open and the next call will not open it
  (\<open>TRACY_ASYNC\<close> was read already, or does not ask for it, or \<open>mkstemp\<close> fails).
  Entries-only: \<open>TRACY_LOG_ENTRIES_ONLY\<close> was read as set, or will be.
\<close>

definition sync_mode :: "world \<Rightarrow> state \<Rightarrow> bool" where
  "sync_mode w s =
     (Async_fd s < 0 \<and>
      (0 \<le> be_async s \<or> mkstemp w < 0 \<or>
       (case getenv w ''TRACY_ASYNC'' of None \<Rightarrow> True | Some env \<Rightarrow> \<not> first_is (CHR ''1'') env)))"

definition entries_only_mode :: "world \<Rightarrow> state \<Rightarrow> bool" where
  "entries_only_mode w s =
     (0 < entries_only s \<or>
      (entries_only s < 0 \<and>
       (case getenv w ''TRACY_LOG_ENTRIES_ONLY'' of None \<Rightarrow> False | Some env \<Rightarrow> first_is (CHR ''1'') env)))"

text \<open>
  What \<open>addr2name\<close> and the calls below it leave as it was: every variable but their own
  statics, the cache and the allocator, and every trace line (they write diagnostics
  only).
\<close>

definition visible ::
  "state \<Rightarrow> bool \<times> unsigned \<times> int \<times> unsigned \<times> int \<times> int \<times> int \<times> int \<times> int \<times> unsigned list \<times> logline list" where
  "visible s =
     (Tracing s, Callstack_depth s, Async_fd s, depth_limit s, depth_limited s, be_async s,
      entries_only s, indent s, log_fname s, backlog s, traces s)"

text \<open>
  A process for the examples: a 32-bit x86 build, the loader resolves every address to
  \<open>foo\<close> of \<open>/bin/tgt\<close>, and the environment is the given one. In the second one the
  loader knows the file of an address but not its symbol, and the file \<open>/bin/tgt\<close> is an
  ELF image whose tables have the one function \<open>foo\<close> at \<open>0x8048100\<close>.
\<close>

definition example_world :: "(string \<times> string) list \<Rightarrow> world" where
  "example_world env =
     \<lparr>char_signed = True, armel = False, lp64 = False, getenv = map_of env,
      dladdr = (\<lambda>a. Some \<lparr>dli_fname = Some ''/bin/tgt'', dli_fbase = 0x8048000,
                           dli_sname = Some ''foo'', dli_saddr = a\<rparr>),
      elf_tables = (\<lambda>n. None), mkstemp = 3\<rparr>"

definition example_world_elf :: "(string \<times> string) list \<Rightarrow> world" where
  "example_world_elf env =
     \<lparr>char_signed = True, armel = False, lp64 = False, getenv = map_of env,
      dladdr = (\<lambda>a. Some \<lparr>dli_fname = Some ''/bin/tgt'', dli_fbase = 0x8048000,
                           dli_sname = None, dli_saddr = 0\<rparr>),
      elf_tables = (\<lambda>n. if n = ''/bin/tgt''
                         then Some (CHR 0x00 # ''foo'' @ [CHR 0x00],
                                    [\<lparr>st_name = 1, st_value = 0x8048100\<rparr>])
                         else None),
      mkstemp = 3\<rparr>"

lemma mkwords_loop_out:
  "mkwords_loop cs m wd str = (ws, ls, m') \<Longrightarrow> filter is_trace ls = []"
proof (induction str arbitrary: m wd ws ls m')
  case Nil
  then show ?case by simp
next
  case (Cons c str)
  show ?case
  proof (cases "c = CHR '':''")
    case False
    with Cons.prems Cons.IH show ?thesis by simp
  next
    case True
    obtain ok m1 where m1: "malloc m = (ok, m1)" by (cases "malloc m")
    show ?thesis
    proof (cases ok)
      case False
      with True m1 Cons.prems show ?thesis by auto
    next
      case ok: True
      obtain ws2 ls2 m2 where r:
        "mkwords_loop cs m1 \<lparr>hash = 0, length_w = 0, word_w = str\<rparr> str = (ws2, ls2, m2)"
        by (cases "mkwords_loop cs m1 \<lparr>hash = 0, length_w = 0, word_w = str\<rparr> str")
      from Cons.IH [OF r] True m1 ok r Cons.prems show ?thesis by auto
    qed
  qed
qed

lemma mkwords_out: "mkwords cs m str = (ws, ls, m') \<Longrightarrow> filter is_trace ls = []"
  by (auto simp: mkwords_def split: if_splits prod.splits bool.splits dest: mkwords_loop_out)

lemma mkwords_st_visible: "mkwords_st w env s = (ws, s') \<Longrightarrow> visible s' = visible s"
  by (auto simp: mkwords_st_def visible_def traces_def split: prod.splits dest: mkwords_out)

lemma report_dso_init_visible [simp]: "visible (report_dso_init w s) = visible s"
proof -
  have a: "\<And>t f x. visible (t\<lparr>rd_flist := f, rd_is_whitelist := x\<rparr>) = visible t"
    by (simp add: visible_def traces_def)
  have b: "\<And>t f x. visible (t\<lparr>rd_flist := f, rd_report_all := x\<rparr>) = visible t"
    by (simp add: visible_def traces_def)
  show ?thesis
    by (auto simp: report_dso_init_def a b split: option.splits prod.splits
          dest!: mkwords_st_visible)
qed

lemma report_dso_visible: "report_dso w nm s = (r, s') \<Longrightarrow> visible s' = visible s"
  by (auto simp: report_dso_def Let_def split: option.splits if_splits)

lemma report_function_init_visible [simp]: "visible (report_function_init w s) = visible s"
  by (simp add: report_function_init_def Let_def visible_def traces_def)

lemma report_function_visible:
  "report_function w f s = Some (r, s') \<Longrightarrow> visible s' = visible s"
  by (auto simp: report_function_def Let_def split: if_splits cstr.splits)

lemma remember_visible: "remember d s = (mapped, s') \<Longrightarrow> visible s' = visible s"
  by (auto simp: remember_def LOGIT_def visible_def traces_def split: prod.splits bool.splits)

lemma answer_visible:
  "answer w fu yes f s = Some (r, f', fu', s') \<Longrightarrow> visible s' = visible s"
  by (auto simp: answer_def split: option.splits dest: report_function_visible)

lemma addr2name_visible:
  "addr2name w addr s = Some (r, f, fu, s') \<Longrightarrow> visible s' = visible s"
  unfolding addr2name_def Let_def
  by (auto split: option.splits prod.splits
        dest!: answer_visible report_dso_visible remember_visible)

lemma read_maxdepth_frame [simp]:
  "Callstack_depth (read_maxdepth w s) = Callstack_depth s"
  "out (read_maxdepth w s) = out s"
  "Tracing (read_maxdepth w s) = Tracing s"
  by (simp_all add: read_maxdepth_def split: option.splits)

lemma read_maxdepth_other [simp]:
  "Async_fd (read_maxdepth w s) = Async_fd s"
  "be_async (read_maxdepth w s) = be_async s"
  "entries_only (read_maxdepth w s) = entries_only s"
  "traces (read_maxdepth w s) = traces s"
  by (simp_all add: read_maxdepth_def traces_def split: option.splits)

lemma read_async_sync:
  "sync_mode w s \<Longrightarrow> Async_fd (read_async w s) < 0"
  by (auto simp: read_async_def sync_mode_def LOGIT_def split: option.splits)

lemma read_async_traces [simp]:
  "traces (read_async w s) = traces s"
  "entries_only (read_async w s) = entries_only s"
  "Callstack_depth (read_async w s) = Callstack_depth s"
  by (auto simp: read_async_def LOGIT_def traces_def split: option.splits)

lemma read_entries_only_frame [simp]:
  "traces (read_entries_only w s) = traces s"
  "Async_fd (read_entries_only w s) = Async_fd s"
  "Callstack_depth (read_entries_only w s) = Callstack_depth s"
  by (auto simp: read_entries_only_def traces_def split: option.splits)

lemma read_entries_only_on:
  "entries_only_mode w s \<Longrightarrow> entries_only (read_entries_only w s) \<noteq> 0"
  by (auto simp: read_entries_only_def entries_only_mode_def split: option.splits)

lemma read_indent_frame [simp]:
  "traces (read_indent w s) = traces s"
  "Async_fd (read_indent w s) = Async_fd s"
  "entries_only (read_indent w s) = entries_only s"
  "Callstack_depth (read_indent w s) = Callstack_depth s"
  by (auto simp: read_indent_def traces_def split: option.splits)

lemma visible_fields:
  "visible s' = visible s \<Longrightarrow>
     traces s' = traces s \<and> entries_only s' = entries_only s
     \<and> Callstack_depth s' = Callstack_depth s"
  by (simp add: visible_def)

lemma print_trace_cut:
  "limit_reached w s \<or> (\<not> armel w \<and> length bt < 3) \<Longrightarrow>
   print_trace w bt addr dir s = Some (1, read_maxdepth w s)"
  unfolding print_trace_def Let_def limit_reached_def by auto

lemma print_trace_sync:
  assumes "\<not> limit_reached w s" and "armel w \<or> 3 \<le> length bt"
    and "Async_fd (before_addr2name w s) < 0"
  shows "print_trace w bt addr dir s =
    (case addr2name w (if armel w then addr else bt ! 2) (before_addr2name w s) of
       None \<Rightarrow> None
     | Some (success, fnm, funame, s5) \<Rightarrow>
         if success < 0 then Some (0, s5)
         else if entries_only s5 \<noteq> 0 \<and> \<not> first_is (CHR ''E'') dir then Some (1, s5)
         else if success \<noteq> 0 then
           map_option (Pair 1)
             (log_resolved (if entries_only (before_addr2name w s) \<noteq> 0 then [] else dir)
                (if log_fname (read_log_fname w s5) \<noteq> 0 then fnm else [])
                (if log_fname (read_log_fname w s5) \<noteq> 0 then '':'' else [])
                funame (read_log_fname w s5))
         else
           Some (1, LOGIT (Trace (if entries_only (before_addr2name w s) \<noteq> 0 then [] else dir)
                        (Callstack_depth (read_log_fname w s5)) (indent_width (read_log_fname w s5))
                        (if log_fname (read_log_fname w s5) \<noteq> 0 then fnm else [])
                        (if log_fname (read_log_fname w s5) \<noteq> 0 then '':'' else [])
                        (Address (if armel w then addr else bt ! 2)))
                 (read_log_fname w s5)))"
proof -
  have 1: "\<not> (depth_limited (read_maxdepth w s) \<noteq> 0 \<and>
     depth_limit (read_maxdepth w s) \<le> Callstack_depth (read_maxdepth w s))"
    using assms(1) by (simp add: limit_reached_def)
  have 2: "\<not> (\<not> armel w \<and> length bt < 3)" using assms(2) by auto
  have 3: "\<not> 0 \<le> Async_fd (read_indent w (read_entries_only w (read_async w (read_maxdepth w s))))"
    using assms(3) by (simp add: before_addr2name_def)
  show ?thesis
    unfolding print_trace_def Let_def before_addr2name_def
    apply (simp only: 1 2 3 if_False)
    apply (simp only: read_indent_frame)
    done
qed

lemma sync_mode_fd: "sync_mode w s \<Longrightarrow> Async_fd (before_addr2name w s) < 0"
    using read_async_sync [of w "read_maxdepth w s"] 
    by (simp add: before_addr2name_def sync_mode_def)

lemma entries_only_mode_on: "entries_only_mode w s \<Longrightarrow> entries_only (before_addr2name w s) \<noteq> 0"
    using read_entries_only_on [of w "read_async w (read_maxdepth w s)"]
    by (simp add: before_addr2name_def entries_only_mode_def)

lemma leave_sync:
  assumes nl: "\<not> limit_reached w s" and bt: "armel w \<or> 3 \<le> length bt"
  and fd: "Async_fd (before_addr2name w s) < 0" and eo: "entries_only (before_addr2name w s) \<noteq> 0"
  and r: "addr2name w (if armel w then addr else bt ! 2) (before_addr2name w s) = Some (r, f, fu, s5)"
  shows "print_trace w bt addr ''LEAVE'' s = Some (if r < 0 then 0 else 1, s5)"
proof -
  have e: "\<not> first_is (CHR ''E'') ''LEAVE''" by (simp add: first_is_def)
  have v: "entries_only s5 = entries_only (before_addr2name w s)"
    using visible_fields [OF addr2name_visible [OF r]] by blast
  show ?thesis
    unfolding print_trace_sync [OF nl bt fd] r option.case prod.case
    using eo v e by (cases "r < 0") simp_all
qed

lemma leave_fault:
  assumes nl: "\<not> limit_reached w s" and bt: "armel w \<or> 3 \<le> length bt"
  and fd: "Async_fd (before_addr2name w s) < 0"
  and r: "addr2name w (if armel w then addr else bt ! 2) (before_addr2name w s) = None"
  shows "print_trace w bt addr dir s = None"
  unfolding print_trace_sync [OF nl bt fd] r option.case by (rule refl)

lemma read_log_fname_frame [simp]:
  "traces (read_log_fname w s) = traces s"
  "out (read_log_fname w s) = out s"
  "Callstack_depth (read_log_fname w s) = Callstack_depth s"
  by (auto simp: read_log_fname_def traces_def split: option.splits)

lemma before_addr2name_frame [simp]:
  "traces (before_addr2name w s) = traces s"
  "Callstack_depth (before_addr2name w s) = Callstack_depth s"
  by (simp_all add: before_addr2name_def)

lemma print_trace_async:
  assumes "\<not> limit_reached w s" and "armel w \<or> 3 \<le> length bt"
    and "0 \<le> Async_fd (before_addr2name w s)"
  shows "print_trace w bt addr dir s =
    Some (1, if first_is (CHR ''E'') dir
        then (if entries_only (before_addr2name w s) = 0 \<or> first_is (CHR ''E'') dir
               then LOGIT (Async_trace (if entries_only (before_addr2name w s) \<noteq> 0 then [] else dir)
                             (Callstack_depth (before_addr2name w s))
                             (indent_width (before_addr2name w s))
                             (if armel w then addr else bt ! 2)) (before_addr2name w s)
               else before_addr2name w s)
             \<lparr>backlog := backlog
               (if entries_only (before_addr2name w s) = 0 \<or> first_is (CHR ''E'') dir
               then LOGIT (Async_trace (if entries_only (before_addr2name w s) \<noteq> 0 then [] else dir)
                             (Callstack_depth (before_addr2name w s))
                             (indent_width (before_addr2name w s))
                             (if armel w then addr else bt ! 2)) (before_addr2name w s)
               else before_addr2name w s) @ [if armel w then addr else bt ! 2]\<rparr>
        else (if entries_only (before_addr2name w s) = 0 \<or> first_is (CHR ''E'') dir
               then LOGIT (Async_trace (if entries_only (before_addr2name w s) \<noteq> 0 then [] else dir)
                             (Callstack_depth (before_addr2name w s))
                             (indent_width (before_addr2name w s))
                             (if armel w then addr else bt ! 2)) (before_addr2name w s)
               else before_addr2name w s))"
proof -
  have 1: "\<not> (depth_limited (read_maxdepth w s) \<noteq> 0 \<and>
     depth_limit (read_maxdepth w s) \<le> Callstack_depth (read_maxdepth w s))"
    using assms(1) by (simp add: limit_reached_def)
  have 2: "\<not> (\<not> armel w \<and> length bt < 3)" using assms(2) by auto
  have 3: "0 \<le> Async_fd (read_indent w (read_entries_only w (read_async w (read_maxdepth w s))))"
    using assms(3) by (simp add: before_addr2name_def)
  show ?thesis
    unfolding print_trace_def Let_def before_addr2name_def
    apply (simp only: 1 2 3 if_False if_True)
    apply (simp only: read_indent_frame)
    done
qed

lemma traces_LOGIT: "traces (LOGIT l s) = traces s @ (if is_trace l then [l] else [])"
  by (simp add: traces_def LOGIT_def)

lemma depth_LOGIT [simp]: "Callstack_depth (LOGIT l s) = Callstack_depth s"
  by (simp add: LOGIT_def)

lemma traces_backlog [simp]: "traces (s\<lparr>backlog := b\<rparr>) = traces s"
  by (simp add: traces_def)

lemma log_resolved_frame:
  assumes "log_resolved dir fnm colon fu s = Some s'"
  shows "Callstack_depth s' = Callstack_depth s"
    and "\<exists>l. traces s' = traces s @ [l] \<and> line_depth l = Some (Callstack_depth s)"
  using assms by (auto simp: log_resolved_def traces_LOGIT split: cstr.splits)

lemma print_trace_depth:
  assumes p: "print_trace w bt addr dir s = Some (r, s')"
  shows "Callstack_depth s' = Callstack_depth s"
proof (cases "limit_reached w s \<or> (\<not> armel w \<and> length bt < 3)")
  case True
  from print_trace_cut [OF True, of addr dir] p show ?thesis by simp
next
  case False
  then have nl: "\<not> limit_reached w s" and bt: "armel w \<or> 3 \<le> length bt" by auto
  show ?thesis
  proof (cases "0 \<le> Async_fd (before_addr2name w s)")
    case True
    from p show ?thesis unfolding print_trace_async [OF nl bt True] by auto
  next
    case False
    then have fd: "Async_fd (before_addr2name w s) < 0" by simp
    let ?r = "addr2name w (if armel w then addr else bt ! 2) (before_addr2name w s)"
    from p obtain x where x: "?r = Some x"
      unfolding print_trace_sync [OF nl bt fd] by (cases ?r) auto
    define su where "su = fst x"
    define f where "f = fst (snd x)"
    define fu where "fu = fst (snd (snd x))"
    define s5 where "s5 = snd (snd (snd x))"
    have r: "?r = Some (su, f, fu, s5)"
      unfolding x su_def f_def fu_def s5_def by (simp only: prod.collapse)
    have v: "Callstack_depth s5 = Callstack_depth (before_addr2name w s)"
      using visible_fields [OF addr2name_visible [OF r]] by blast
    from p have "(if su < 0 then Some (0, s5)
         else if entries_only s5 \<noteq> 0 \<and> \<not> first_is (CHR ''E'') dir then Some (1, s5)
         else if su \<noteq> 0 then
           map_option (Pair 1)
             (log_resolved (if entries_only (before_addr2name w s) \<noteq> 0 then [] else dir)
                (if log_fname (read_log_fname w s5) \<noteq> 0 then f else [])
                (if log_fname (read_log_fname w s5) \<noteq> 0 then '':'' else [])
                fu (read_log_fname w s5))
         else
           Some (1, LOGIT (Trace (if entries_only (before_addr2name w s) \<noteq> 0 then [] else dir)
                        (Callstack_depth (read_log_fname w s5)) (indent_width (read_log_fname w s5))
                        (if log_fname (read_log_fname w s5) \<noteq> 0 then f else [])
                        (if log_fname (read_log_fname w s5) \<noteq> 0 then '':'' else [])
                        (Address (if armel w then addr else bt ! 2)))
                 (read_log_fname w s5))) = Some (r, s')"
      unfolding print_trace_sync [OF nl bt fd] r option.case prod.case .
    then show ?thesis
      using v by (auto split: if_splits dest: log_resolved_frame(1))
  qed
qed

lemma print_trace_lines:
  assumes p: "print_trace w bt addr dir s = Some (r, s')"
  shows "traces s' = traces s
   \<or> (\<exists>l. traces s' = traces s @ [l] \<and> line_depth l = Some (Callstack_depth s))"
proof (cases "limit_reached w s \<or> (\<not> armel w \<and> length bt < 3)")
  case True
  from print_trace_cut [OF True, of addr dir] p show ?thesis by auto
next
  case False
  then have nl: "\<not> limit_reached w s" and bt: "armel w \<or> 3 \<le> length bt" by auto
  show ?thesis
  proof (cases "0 \<le> Async_fd (before_addr2name w s)")
    case True
    from p have e: "s' = snd (the (print_trace w bt addr dir s))" by simp
    show ?thesis unfolding e print_trace_async [OF nl bt True]
      by (simp add: traces_LOGIT)
  next
    case False
    then have fd: "Async_fd (before_addr2name w s) < 0" by simp
    let ?r = "addr2name w (if armel w then addr else bt ! 2) (before_addr2name w s)"
    from p obtain x where x: "?r = Some x"
      unfolding print_trace_sync [OF nl bt fd] by (cases ?r) auto
    define su where "su = fst x"
    define f where "f = fst (snd x)"
    define fu where "fu = fst (snd (snd x))"
    define s5 where "s5 = snd (snd (snd x))"
    have r: "?r = Some (su, f, fu, s5)"
      unfolding x su_def f_def fu_def s5_def by (simp only: prod.collapse)
    have v: "Callstack_depth s5 = Callstack_depth (before_addr2name w s)"
      "traces s5 = traces (before_addr2name w s)"
      using visible_fields [OF addr2name_visible [OF r]] by blast+
    from p have "(if su < 0 then Some (0, s5)
         else if entries_only s5 \<noteq> 0 \<and> \<not> first_is (CHR ''E'') dir then Some (1, s5)
         else if su \<noteq> 0 then
           map_option (Pair 1)
             (log_resolved (if entries_only (before_addr2name w s) \<noteq> 0 then [] else dir)
                (if log_fname (read_log_fname w s5) \<noteq> 0 then f else [])
                (if log_fname (read_log_fname w s5) \<noteq> 0 then '':'' else [])
                fu (read_log_fname w s5))
         else
           Some (1, LOGIT (Trace (if entries_only (before_addr2name w s) \<noteq> 0 then [] else dir)
                        (Callstack_depth (read_log_fname w s5)) (indent_width (read_log_fname w s5))
                        (if log_fname (read_log_fname w s5) \<noteq> 0 then f else [])
                        (if log_fname (read_log_fname w s5) \<noteq> 0 then '':'' else [])
                        (Address (if armel w then addr else bt ! 2)))
                 (read_log_fname w s5))) = Some (r, s')"
      unfolding print_trace_sync [OF nl bt fd] r option.case prod.case .
    then show ?thesis
      using v by (auto simp: traces_LOGIT split: if_splits dest: log_resolved_frame(2))
  qed
qed

lemma read_maxdepth_set:
  assumes "getenv w ''TRACY_MAXDEPTH'' = Some env" and "env \<noteq> []"
    and "maxdepth_read (lp64 w) env s"
  shows "depth_limited (read_maxdepth w s) = 1"
    and "depth_limit (read_maxdepth w s) = word_of_int (atoi (lp64 w) env)"
  using assms by (auto simp: read_maxdepth_def maxdepth_read_def)

lemma limit_configured_top:
  assumes "limit_configured w s" and "Callstack_depth s = - 1"
  shows "print_trace w bt addr dir s = Some (1, read_maxdepth w s)"
    and "limit_configured w (read_maxdepth w s)"
proof -
  from assms(1) obtain env where e: "getenv w ''TRACY_MAXDEPTH'' = Some env" "env \<noteq> []"
    "maxdepth_read (lp64 w) env s"
    by (auto simp: limit_configured_def split: option.splits)
  note r = read_maxdepth_set [OF e]
  have "depth_limit (read_maxdepth w s) \<le> Callstack_depth s"
    using assms(2) by simp
  with r(1) have "limit_reached w s" by (simp add: limit_reached_def)
  then show "print_trace w bt addr dir s = Some (1, read_maxdepth w s)"
    by (simp add: print_trace_cut)
  show "limit_configured w (read_maxdepth w s)"
    using e r by (simp add: limit_configured_def maxdepth_read_def)
qed

lemma limit_configured_depth [simp]:
  "limit_configured w (s\<lparr>Callstack_depth := d\<rparr>) = limit_configured w s"
  by (simp add: limit_configured_def maxdepth_read_def cong: option.case_cong)

lemma minus_one_unsigned: "(- 1 :: unsigned) = 4294967295"
  by simp

lemma traces_depth [simp]: "traces (s\<lparr>Callstack_depth := d\<rparr>) = traces s"
  by (simp add: traces_def)

lemma enter_admitted:
  "Tracing t \<Longrightarrow> print_trace w bt a ''ENTER'' t = Some (1, t') \<Longrightarrow>
   cyg_profile_func_enter w bt a t = Some (t'\<lparr>Callstack_depth := Callstack_depth t' + 1\<rparr>)"
  by (simp add: cyg_profile_func_enter_def)


lemma maxdepth_unset_depth [simp]:
  "maxdepth_unset w (s\<lparr>Callstack_depth := d\<rparr>) = maxdepth_unset w s"
  by (simp add: maxdepth_unset_def)

section \<open>The claims about the hooks and the printer\<close>

text \<open>
  Claim C4, as the code has it. On a build that is not ARM, when \<open>backtrace\<close> gives fewer
  than three frames (whether or not the depth limit stops \<open>print_trace\<close> before it asks),
  nothing is written, but \<open>print_trace\<close> returns 1, the value of an admitted event: the
  event counts.
  \<open>__cyg_profile_func_enter\<close> increments the depth counter and
  \<open>__cyg_profile_func_exit\<close> keeps its decrement.
\<close>

theorem short_backtrace_counts:
  assumes "\<not> armel w" and "length bt < 3" and "Tracing s"
  shows "print_trace w bt addr dir s = Some (1, read_maxdepth w s)
       \<and> out (read_maxdepth w s) = out s
       \<and> map_option Callstack_depth (cyg_profile_func_enter w bt addr s)
           = Some (Callstack_depth s + 1)
       \<and> map_option out (cyg_profile_func_enter w bt addr s) = Some (out s)
       \<and> map_option Callstack_depth (cyg_profile_func_exit w bt addr s)
           = Some (Callstack_depth s - 1)
       \<and> map_option out (cyg_profile_func_exit w bt addr s) = Some (out s)"
proof -
  have p: "\<And>dir t. print_trace w bt addr dir t = Some (1, read_maxdepth w t)"
    using assms(1,2) by (simp add: print_trace_def Let_def)
  show ?thesis
    using assms(3) by (simp add: p cyg_profile_func_enter_def cyg_profile_func_exit_def)
qed

theorem short_backtrace_counts_witness:
  "map_option Callstack_depth
     (cyg_profile_func_enter (example_world []) [1, 2] 0x8048100 (initial [])) = Some 1
   \<and> map_option out
       (cyg_profile_func_enter (example_world []) [1, 2] 0x8048100 (initial [])) = Some []"
proof -
  have a: "\<not> armel (example_world [])" by (simp add: example_world_def)
  have b: "length [1, 2 :: unsigned] < 3" by simp
  have c: "Tracing (initial [])" by (simp add: initial_def)
  from short_backtrace_counts [OF a b c, of "0x8048100" "[]"] show ?thesis
    by (simp add: initial_def)
qed

theorem short_backtrace_counterexample:
  "map_option fst (print_trace (example_world []) [1, 2] 0x8048100 ''ENTER'' (initial [])) = Some 1
   \<and> Callstack_depth (initial []) = 0
   \<and> map_option Callstack_depth
       (cyg_profile_func_enter (example_world []) [1, 2] 0x8048100 (initial [])) = Some 1
   \<and> map_option out
       (cyg_profile_func_enter (example_world []) [1, 2] 0x8048100 (initial [])) = Some []"
  by code_simp




text \<open>
  The limit of a value beyond the range of a \<open>long\<close>: \<open>strtol\<close> saturates, so the limit is
  \<open>2147483647\<close> where a \<open>long\<close> has 32 bits and \<open>4294967295\<close> (the \<open>int\<close> -1) where it has 64,
  and an event at depth 2000000000 is below it and is written. An empty \<open>TRACY_MAXDEPTH\<close>
  configures no limit.
\<close>

lemma maxdepth_beyond_long:
  "atoi False ''99999999999999999999'' = 2147483647
   \<and> atoi True ''99999999999999999999'' = - 1
   \<and> map_option out
       (cyg_profile_func_enter (example_world [(''TRACY_MAXDEPTH'', ''99999999999999999999'')])
          [1, 2, 3] 3 ((initial [])\<lparr>Callstack_depth := 2000000000\<rparr>))
       = Some [Trace ''ENTER'' 2000000000 1 ''tgt'' '':'' (Funame ''foo'')]
   \<and> map_option out
       (cyg_profile_func_enter
          ((example_world [(''TRACY_MAXDEPTH'', ''99999999999999999999'')])\<lparr>lp64 := True\<rparr>)
          [1, 2, 3] 3 ((initial [])\<lparr>Callstack_depth := 2000000000\<rparr>))
       = Some [Trace ''ENTER'' 2000000000 1 ''tgt'' '':'' (Funame ''foo'')]
   \<and> map_option out
       (cyg_profile_func_enter (example_world [(''TRACY_MAXDEPTH'', '''')])
          [1, 2, 3] 3 ((initial [])\<lparr>Callstack_depth := 2000000000\<rparr>))
       = Some [Trace ''ENTER'' 2000000000 1 ''tgt'' '':'' (Funame ''foo'')]"
  by code_simp

text \<open>
  Claim C8, as the code has it. In synchronous mode with entries-only configured,
  \<open>print_trace\<close> for a LEAVE writes no trace line. It resolves the address before it
  looks at entries-only. When the depth limit or a short backtrace ends it first it
  returns 1. Otherwise it returns exactly when \<open>addr2name\<close> does: 0 (suppressed by
  filter) when \<open>addr2name\<close> suppresses the address, so that \<open>__cyg_profile_func_exit\<close>
  does undo its decrement for a filtered function, and 1 when it does not. And it does
  not return at all when \<open>addr2name\<close> ends in a memory fault, which happens when the
  allocation that caches a new DSO fails and a function filter then reads the name in the
  unmapped image.
\<close>

theorem leave_entries_only:
  assumes "sync_mode w s" and "entries_only_mode w s"
  shows "print_trace w bt addr ''LEAVE'' s =
           (if limit_reached w s \<or> (\<not> armel w \<and> length bt < 3)
            then Some (1, read_maxdepth w s)
            else map_option (\<lambda>(r, f, fu, s5). (if r < 0 then 0 else 1, s5))
                   (addr2name w (if armel w then addr else bt ! 2) (before_addr2name w s)))
       \<and> (\<forall>r s'. print_trace w bt addr ''LEAVE'' s = Some (r, s') \<longrightarrow> traces s' = traces s)
       \<and> (Tracing s \<and> \<not> limit_reached w s \<and> (armel w \<or> 3 \<le> length bt) \<longrightarrow>
            map_option Callstack_depth
              (cyg_profile_func_exit w bt addr (s\<lparr>Callstack_depth := Callstack_depth s + 1\<rparr>))
            = map_option
                (\<lambda>(r, f, fu, s5). if r < 0 then Callstack_depth s + 1 else Callstack_depth s)
                (addr2name w (if armel w then addr else bt ! 2) (before_addr2name w s)))"
proof (cases "limit_reached w s \<or> (\<not> armel w \<and> length bt < 3)")
  case True
  from print_trace_cut [OF True, of addr "''LEAVE''"] True show ?thesis by auto
next
  case False
  let ?a = "if armel w then addr else bt ! 2"
  let ?s4 = "before_addr2name w s"
  have fd: "Async_fd ?s4 < 0" using assms(1) by (rule sync_mode_fd)
  have eo: "entries_only ?s4 \<noteq> 0" using assms(2) by (rule entries_only_mode_on)
  have nl: "\<not> limit_reached w s" and bt: "armel w \<or> 3 \<le> length bt"
    using False by auto
  have dec: "s\<lparr>Callstack_depth := Callstack_depth s + 1,
                Callstack_depth := Callstack_depth
                  (s\<lparr>Callstack_depth := Callstack_depth s + 1\<rparr>) - 1\<rparr> = s"
    by simp
  have ex: "cyg_profile_func_exit w bt addr (s\<lparr>Callstack_depth := Callstack_depth s + 1\<rparr>) =
      (case print_trace w bt addr ''LEAVE'' s of
         None \<Rightarrow> None
       | Some (r, s') \<Rightarrow>
           Some (if r = 0 then s'\<lparr>Callstack_depth := Callstack_depth s' + 1\<rparr> else s'))"
    if "Tracing s"
    using that unfolding cyg_profile_func_exit_def dec by simp
  show ?thesis
  proof (cases "addr2name w ?a ?s4")
    case None
    have "print_trace w bt addr ''LEAVE'' s = None"
      using nl bt fd None by (rule leave_fault)
    with None False ex show ?thesis by simp
  next
    case (Some x)
    define r where "r = fst x"
    define f where "f = fst (snd x)"
    define fu where "fu = fst (snd (snd x))"
    define s5 where "s5 = snd (snd (snd x))"
    have r: "addr2name w ?a ?s4 = Some (r, f, fu, s5)"
      unfolding Some r_def f_def fu_def s5_def by (simp only: prod.collapse)
    have v: "traces s5 = traces ?s4" "Callstack_depth s5 = Callstack_depth ?s4"
      using visible_fields [OF addr2name_visible [OF r]] by blast+
    have t4: "traces ?s4 = traces s" "Callstack_depth ?s4 = Callstack_depth s"
      by simp_all
    have p: "print_trace w bt addr ''LEAVE'' s = Some (if r < 0 then 0 else 1, s5)"
      using nl bt fd eo r by (rule leave_sync)
    have 1: "print_trace w bt addr ''LEAVE'' s =
           (if limit_reached w s \<or> (\<not> armel w \<and> length bt < 3)
            then Some (1, read_maxdepth w s)
            else map_option (\<lambda>(r, f, fu, s5). (if r < 0 then 0 else 1, s5))
                   (addr2name w ?a ?s4))"
      using nl bt unfolding p r by auto
    have 2: "\<forall>r s'. print_trace w bt addr ''LEAVE'' s = Some (r, s') \<longrightarrow> traces s' = traces s"
      using v t4 unfolding p by simp
    have 3: "map_option Callstack_depth
              (cyg_profile_func_exit w bt addr (s\<lparr>Callstack_depth := Callstack_depth s + 1\<rparr>))
            = map_option
                (\<lambda>(r, f, fu, s5). if r < 0 then Callstack_depth s + 1 else Callstack_depth s)
                (addr2name w ?a ?s4)"
      if "Tracing s"
      unfolding ex [OF that] p r using v t4 by simp
    from 1 2 3 show ?thesis by blast
  qed
qed

theorem leave_entries_only_witness:
  "map_option fst
     (print_trace (example_world [(''TRACY_LOG_ENTRIES_ONLY'', ''1''), (''TRACY_EXFUNS'', ''foo'')])
        [1, 2, 3] 3 ''LEAVE'' (initial [])) = Some 0
   \<and> map_option (traces \<circ> snd)
       (print_trace (example_world [(''TRACY_LOG_ENTRIES_ONLY'', ''1''), (''TRACY_EXFUNS'', ''foo'')])
          [1, 2, 3] 3 ''LEAVE'' (initial [])) = Some []
   \<and> map_option Callstack_depth
       (cyg_profile_func_exit (example_world [(''TRACY_LOG_ENTRIES_ONLY'', ''1''), (''TRACY_EXFUNS'', ''foo'')])
          [1, 2, 3] 3 ((initial [])\<lparr>Callstack_depth := Callstack_depth (initial []) + 1\<rparr>)) = Some 1
   \<and> print_trace (example_world_elf [(''TRACY_LOG_ENTRIES_ONLY'', ''1''), (''TRACY_EXFUNS'', ''foo'')])
        [1, 2, 0x8048104] 3 ''LEAVE'' (initial [False]) = None"
proof -
  let ?w = "example_world [(''TRACY_LOG_ENTRIES_ONLY'', ''1''), (''TRACY_EXFUNS'', ''foo'')]"
  let ?v = "example_world_elf [(''TRACY_LOG_ENTRIES_ONLY'', ''1''), (''TRACY_EXFUNS'', ''foo'')]"
  have a: "sync_mode ?w (initial [])" "sync_mode ?v (initial [False])" by code_simp+
  have b: "entries_only_mode ?w (initial [])" "entries_only_mode ?v (initial [False])"
    by code_simp+
  have c: "\<not> limit_reached ?w (initial [])" "\<not> limit_reached ?v (initial [False])"
    by code_simp+
  have d: "\<not> armel ?w" "\<not> armel ?v" by code_simp+
  have e: "map_option fst (addr2name ?w ([1, 2, 3] ! 2) (before_addr2name ?w (initial [])))
             = Some (- 1)"
    by code_simp
  have f: "addr2name ?v ([1, 2, 0x8048104] ! 2) (before_addr2name ?v (initial [False])) = None"
    by code_simp
  have t: "traces (initial []) = []" "Tracing (initial [])" "Callstack_depth (initial []) = 0"
    by code_simp+
  from leave_entries_only [OF a(1) b(1), of "[1, 2, 3]" 3] c(1) d(1) e t
  have 1: "map_option fst (print_trace ?w [1, 2, 3] 3 ''LEAVE'' (initial [])) = Some 0
         \<and> map_option (traces \<circ> snd) (print_trace ?w [1, 2, 3] 3 ''LEAVE'' (initial [])) = Some []
         \<and> map_option Callstack_depth
              (cyg_profile_func_exit ?w [1, 2, 3] 3
                 ((initial [])\<lparr>Callstack_depth := Callstack_depth (initial []) + 1\<rparr>)) = Some 1"
    by (cases "addr2name ?w ([1, 2, 3] ! 2) (before_addr2name ?w (initial []))") auto
  from leave_entries_only [OF a(2) b(2), of "[1, 2, 0x8048104]" 3] c(2) d(2) f
  have 2: "print_trace ?v [1, 2, 0x8048104] 3 ''LEAVE'' (initial [False]) = None"
    by simp
  from 1 2 show ?thesis by simp
qed

theorem leave_entries_only_counterexample:
  "map_option fst
     (print_trace (example_world [(''TRACY_LOG_ENTRIES_ONLY'', ''1''), (''TRACY_EXFUNS'', ''foo'')])
        [1, 2, 3] 3 ''LEAVE'' ((initial [])\<lparr>Callstack_depth := 4\<rparr>)) = Some 0
   \<and> map_option Callstack_depth
       (cyg_profile_func_exit (example_world [(''TRACY_LOG_ENTRIES_ONLY'', ''1''), (''TRACY_EXFUNS'', ''foo'')])
          [1, 2, 3] 3 ((initial [])\<lparr>Callstack_depth := 5\<rparr>)) = Some 5"
  by code_simp

text \<open>
  The memory fault in \<open>addr2name\<close>, at an input. The loader does not know the symbol of
  the address, the file is met for the first time, and the allocation of its cache entry
  fails: the image is unmapped with the name \<open>getsym\<close> found in it. With a function filter
  \<open>report_function\<close> reads the name and the hook does not return; without one the name is
  read when the line is written, so an ENTER does not return either, and a LEAVE under
  entries-only, which writes no line, returns 1. When the allocation succeeds all of them
  return.
\<close>

lemma unmapped_name_fault:
  "cyg_profile_func_exit (example_world_elf [(''TRACY_LOG_ENTRIES_ONLY'', ''1''), (''TRACY_EXFUNS'', ''foo'')])
     [1, 2, 0x8048104] 3 (initial [False]) = None
   \<and> cyg_profile_func_enter (example_world_elf [(''TRACY_EXFUNS'', ''foo'')])
       [1, 2, 0x8048104] 3 (initial [False]) = None
   \<and> cyg_profile_func_enter (example_world_elf []) [1, 2, 0x8048104] 3 (initial [False]) = None
   \<and> map_option fst
       (print_trace (example_world_elf [(''TRACY_LOG_ENTRIES_ONLY'', ''1'')])
          [1, 2, 0x8048104] 3 ''LEAVE'' (initial [False])) = Some 1
   \<and> map_option out (cyg_profile_func_enter (example_world_elf []) [1, 2, 0x8048104] 3 (initial []))
       = Some [Trace ''ENTER'' 0 1 ''tgt'' '':'' (Funame ''foo'')]
   \<and> map_option fst
       (print_trace (example_world_elf [(''TRACY_LOG_ENTRIES_ONLY'', ''1''), (''TRACY_EXFUNS'', ''foo'')])
          [1, 2, 0x8048104] 3 ''LEAVE'' (initial [])) = Some 0"
  by code_simp

text \<open>
  Claim C10, as the code has it. When \<open>__cyg_profile_func_exit\<close> runs at depth 0 and
  \<open>print_trace\<close> returns and not 0, the counter is left at 4294967295; a trace line written
  by that call shows the depth 4294967295. When a depth limit is configured, that call is
  itself stopped by the limit and writes nothing, and so is the next
  \<open>__cyg_profile_func_enter\<close>, whose increment (not a later decrement) wraps the counter
  back to 0.
\<close>

theorem exit_at_depth_zero:
  assumes "Tracing s" and "Callstack_depth s = 0"
    and "print_trace w bt addr ''LEAVE'' (s\<lparr>Callstack_depth := Callstack_depth s - 1\<rparr>)
           = Some (r, s')"
    and "r \<noteq> 0"
  shows "cyg_profile_func_exit w bt addr s = Some s'
       \<and> Callstack_depth s' = 4294967295
       \<and> (traces s' = traces s
          \<or> (\<exists>l. traces s' = traces s @ [l] \<and> line_depth l = Some 4294967295))
       \<and> (limit_configured w s \<longrightarrow>
            out s' = out s
            \<and> (\<forall>bt' addr'. \<exists>s''.
                 cyg_profile_func_enter w bt' addr' s' = Some s''
                 \<and> out s'' = out s \<and> Callstack_depth s'' = 0))"
proof -
  let ?s1 = "s\<lparr>Callstack_depth := Callstack_depth s - 1\<rparr>"
  note p = assms(3)
  have d1: "Callstack_depth ?s1 = - 1" using assms(2) by simp
  have ex: "cyg_profile_func_exit w bt addr s = Some s'"
    using assms(1,4) p by (simp add: cyg_profile_func_exit_def)
  have a: "Callstack_depth s' = 4294967295"
    using print_trace_depth [OF p] d1 by simp
  have b: "traces s' = traces s
      \<or> (\<exists>l. traces s' = traces s @ [l] \<and> line_depth l = Some 4294967295)"
    using print_trace_lines [OF p] d1
    by (simp add: minus_one_unsigned)
  have c: "out s' = out s
            \<and> (\<forall>bt' addr'. \<exists>s''.
                 cyg_profile_func_enter w bt' addr' s' = Some s''
                 \<and> out s'' = out s \<and> Callstack_depth s'' = 0)"
    if lc: "limit_configured w s"
  proof -
    have lc1: "limit_configured w ?s1" using lc by simp
    note q = limit_configured_top(1) [OF lc1 d1, of bt addr "''LEAVE''"]
      limit_configured_top(2) [OF lc1 d1]
    let ?s2 = "read_maxdepth w ?s1"
    have s': "s' = ?s2" using p q(1) by simp
    have d2: "Callstack_depth ?s2 = - 1" using d1 by simp
    have t2: "Tracing ?s2" using assms(1) by simp
    have q2: "\<And>bt' addr'. print_trace w bt' addr' ''ENTER'' ?s2 = Some (1, read_maxdepth w ?s2)"
      using limit_configured_top(1) [OF q(2) d2] .
    have en: "\<And>bt' addr'. cyg_profile_func_enter w bt' addr' ?s2 =
        Some ((read_maxdepth w ?s2)\<lparr>Callstack_depth := Callstack_depth (read_maxdepth w ?s2) + 1\<rparr>)"
      using enter_admitted [OF t2 q2] .
    show ?thesis
      unfolding s' en
      using d1 by simp
  qed
  from a b c ex show ?thesis by blast
qed

theorem exit_at_depth_zero_witness:
  "map_option Callstack_depth
     (cyg_profile_func_exit (example_world [(''TRACY_MAXDEPTH'', ''5'')]) [1, 2, 3] 3 (initial []))
     = Some 4294967295
   \<and> map_option out
       (cyg_profile_func_exit (example_world [(''TRACY_MAXDEPTH'', ''5'')]) [1, 2, 3] 3 (initial []))
       = Some []
   \<and> (\<exists>s''. cyg_profile_func_enter (example_world [(''TRACY_MAXDEPTH'', ''5'')]) [1, 2, 3] 3
                 (read_maxdepth (example_world [(''TRACY_MAXDEPTH'', ''5'')])
                    ((initial [])\<lparr>Callstack_depth := Callstack_depth (initial []) - 1\<rparr>))
               = Some s''
             \<and> out s'' = [] \<and> Callstack_depth s'' = 0)"
proof -
  let ?w = "example_world [(''TRACY_MAXDEPTH'', ''5'')]"
  let ?s1 = "(initial [])\<lparr>Callstack_depth := Callstack_depth (initial []) - 1\<rparr>"
  have a: "Tracing (initial [])" by (simp add: initial_def)
  have b: "Callstack_depth (initial []) = 0" by (simp add: initial_def)
  have c: "print_trace ?w [1, 2, 3] 3 ''LEAVE'' ?s1 = Some (1, read_maxdepth ?w ?s1)"
    by code_simp
  have d: "limit_configured ?w (initial [])" by code_simp
  have e: "out (initial []) = []" by (simp add: initial_def)
  have f: "(1::int) \<noteq> 0" by simp
  from exit_at_depth_zero [OF a b c f] d e b show ?thesis by simp
qed

theorem wrapped_depth_counterexample:
  "map_option Callstack_depth
     (run (example_world [(''TRACY_MAXDEPTH'', ''5'')]) (initial []) [Leave 3 [1, 2, 3]])
     = Some 4294967295
   \<and> map_option out
       (run (example_world [(''TRACY_MAXDEPTH'', ''5'')]) (initial []) [Leave 3 [1, 2, 3]])
       = Some []
   \<and> map_option Callstack_depth
       (run (example_world [(''TRACY_MAXDEPTH'', ''5'')]) (initial [])
          [Leave 3 [1, 2, 3], Enter 3 [1, 2, 3]]) = Some 0
   \<and> map_option out
       (run (example_world [(''TRACY_MAXDEPTH'', ''5'')]) (initial [])
          [Leave 3 [1, 2, 3], Enter 3 [1, 2, 3]]) = Some []
   \<and> map_option out
       (run (example_world [(''TRACY_MAXDEPTH'', ''5'')]) (initial [])
          [Leave 3 [1, 2, 3], Enter 3 [1, 2, 3], Enter 3 [1, 2, 3]])
       = Some [Trace ''ENTER'' 0 1 ''tgt'' '':'' (Funame ''foo'')]"
  by code_simp

text \<open>
  Claim C1 at an input where the code breaks it. With \<open>TRACY_MAXDEPTH=2\<close> and
  \<open>TRACY_EXFUNS=foo\<close>, the entry of \<open>foo\<close> at depth 0 is suppressed by the filter and
  leaves the counter at 0. At its exit the counter is decremented first and wraps to
  4294967295, which is above the limit: \<open>print_trace\<close> returns 1 before it consults the
  filter, and the decrement is not undone. After a balanced enter and exit of a frame that
  was never admitted the counter is 4294967295, not 0. Without the limit the same two
  events leave it at 0.
\<close>

theorem filtered_frame_at_depth_zero:
  "map_option fst
     (print_trace (example_world [(''TRACY_MAXDEPTH'', ''2''), (''TRACY_EXFUNS'', ''foo'')])
        [1, 2, 3] 3 ''ENTER'' (initial [])) = Some 0
   \<and> map_option Callstack_depth
       (run (example_world [(''TRACY_MAXDEPTH'', ''2''), (''TRACY_EXFUNS'', ''foo'')])
          (initial []) [Enter 3 [1, 2, 3]]) = Some 0
   \<and> map_option Callstack_depth
       (run (example_world [(''TRACY_MAXDEPTH'', ''2''), (''TRACY_EXFUNS'', ''foo'')])
          (initial []) [Enter 3 [1, 2, 3], Leave 3 [1, 2, 3]]) = Some 4294967295
   \<and> map_option out
       (run (example_world [(''TRACY_MAXDEPTH'', ''2''), (''TRACY_EXFUNS'', ''foo'')])
          (initial []) [Enter 3 [1, 2, 3], Leave 3 [1, 2, 3]]) = Some []
   \<and> map_option Callstack_depth
       (run (example_world [(''TRACY_EXFUNS'', ''foo'')])
          (initial []) [Enter 3 [1, 2, 3], Leave 3 [1, 2, 3]]) = Some 0"
  by code_simp

lemma step_disabled: "\<not> Tracing s \<Longrightarrow> handlers s = [] \<Longrightarrow> step w s e = Some s"
  by (cases e) (simp_all add: cyg_profile_func_enter_def cyg_profile_func_exit_def)

lemma run_disabled: "\<not> Tracing s \<Longrightarrow> handlers s = [] \<Longrightarrow> run w s evs = Some s"
  by (induction evs) (simp_all add: step_disabled)

lemma tracy_init_not_understood:
  assumes "getenv w ''TRACY_SIGNAL'' = Some env"
    and "\<not> first_is (CHR ''y'') env" and "\<not> first_is (CHR ''Y'') env"
    and "atoi (lp64 w) env \<le> 0"
  shows "tracy_init w s = s\<lparr>Tracing := False, out := out s @ [Bad_signal env]\<rparr>"
  using assms by (simp add: tracy_init_def signal_def LOGIT_def)

text \<open>
  Claim C6 at an input where the code breaks it. With \<open>TRACY_SIGNAL=abc\<close> the initializer
  writes its diagnostic, then still calls \<open>signal\<close>, which fails for the number 0, and
  still clears \<open>Tracing\<close>: no handler is installed, tracing is off, and no sequence of
  hook calls and signals writes a trace line. With \<open>TRACY_SIGNAL\<close> unset tracing is on.
\<close>

theorem tracy_init_bad_signal:
  "Tracing (tracy_init (example_world []) (initial [])) = True
   \<and> Tracing (tracy_init (example_world [(''TRACY_SIGNAL'', ''abc'')]) (initial [])) = False
   \<and> handlers (tracy_init (example_world [(''TRACY_SIGNAL'', ''abc'')]) (initial [])) = []
   \<and> (\<forall>evs. map_option out
               (run (example_world [(''TRACY_SIGNAL'', ''abc'')])
                  (tracy_init (example_world [(''TRACY_SIGNAL'', ''abc'')]) (initial [])) evs)
             = Some [Bad_signal ''abc''])"
proof -
  let ?w = "example_world [(''TRACY_SIGNAL'', ''abc'')]"
  have a: "Tracing (tracy_init (example_world []) (initial [])) = True" by code_simp
  have g: "getenv ?w ''TRACY_SIGNAL'' = Some ''abc''" by code_simp
  have y: "\<not> first_is (CHR ''y'') ''abc''" "\<not> first_is (CHR ''Y'') ''abc''" by code_simp+
  have z: "atoi (lp64 ?w) ''abc'' \<le> 0" by code_simp
  have i: "tracy_init ?w (initial []) = (initial [])\<lparr>Tracing := False, out := out (initial []) @ [Bad_signal ''abc'']\<rparr>"
    using g y z by (rule tracy_init_not_understood)
  have t: "\<not> Tracing (tracy_init ?w (initial []))" unfolding i by simp
  have h: "handlers (tracy_init ?w (initial [])) = []" unfolding i by (simp add: initial_def)
  have o: "out (tracy_init ?w (initial [])) = [Bad_signal ''abc'']" unfolding i by (simp add: initial_def)
  from a t h o run_disabled [OF t h] show ?thesis by simp
qed


section \<open>What the hooks do with the result of \<open>print_trace\<close>\<close>

text \<open>
  While tracing is enabled, a hook returns exactly when \<open>print_trace\<close> does.
  \<open>__cyg_profile_func_enter\<close> increments the depth counter exactly when \<open>print_trace\<close>
  returns non-zero, and \<open>__cyg_profile_func_exit\<close>, which decrements it before the call,
  undoes the decrement exactly when \<open>print_trace\<close> returns zero. \<open>print_trace\<close> itself
  never changes the counter.
\<close>

theorem hooks_count_by_result:
  assumes "Tracing s"
  shows "map_option Callstack_depth (cyg_profile_func_enter w bt addr s) =
           map_option (\<lambda>(r, s'). if r \<noteq> 0 then Callstack_depth s + 1 else Callstack_depth s)
             (print_trace w bt addr ''ENTER'' s)
       \<and> map_option Callstack_depth (cyg_profile_func_exit w bt addr s) =
           map_option (\<lambda>(r, s'). if r = 0 then Callstack_depth s else Callstack_depth s - 1)
             (print_trace w bt addr ''LEAVE'' (s\<lparr>Callstack_depth := Callstack_depth s - 1\<rparr>))"
proof -
  let ?s1 = "s\<lparr>Callstack_depth := Callstack_depth s - 1\<rparr>"
  have e: "map_option Callstack_depth (cyg_profile_func_enter w bt addr s) =
           map_option (\<lambda>(r, s'). if r \<noteq> 0 then Callstack_depth s + 1 else Callstack_depth s)
             (print_trace w bt addr ''ENTER'' s)"
  proof (cases "print_trace w bt addr ''ENTER'' s")
    case None
    with assms show ?thesis by (simp add: cyg_profile_func_enter_def)
  next
    case (Some x)
    obtain r s' where x: "x = (r, s')" by (cases x)
    have p: "print_trace w bt addr ''ENTER'' s = Some (r, s')" unfolding Some x ..
    from print_trace_depth [OF p] assms show ?thesis
      by (simp add: cyg_profile_func_enter_def p)
  qed
  have l: "map_option Callstack_depth (cyg_profile_func_exit w bt addr s) =
           map_option (\<lambda>(r, s'). if r = 0 then Callstack_depth s else Callstack_depth s - 1)
             (print_trace w bt addr ''LEAVE'' ?s1)"
  proof (cases "print_trace w bt addr ''LEAVE'' ?s1")
    case None
    with assms show ?thesis by (simp add: cyg_profile_func_exit_def)
  next
    case (Some x)
    obtain r s' where x: "x = (r, s')" by (cases x)
    have p: "print_trace w bt addr ''LEAVE'' ?s1 = Some (r, s')" unfolding Some x ..
    from print_trace_depth [OF p] assms show ?thesis
      by (simp add: cyg_profile_func_exit_def p)
  qed
  from e l show ?thesis by (rule conjI)
qed

theorem hooks_count_by_result_witness:
  "map_option Callstack_depth
     (cyg_profile_func_enter (example_world []) [1, 2, 3] 3 (initial [])) = Some 1
   \<and> map_option Callstack_depth
       (cyg_profile_func_exit (example_world [(''TRACY_EXFUNS'', ''foo'')]) [1, 2, 3] 3
          ((initial [])\<lparr>Callstack_depth := 7\<rparr>)) = Some 7"
proof -
  have t: "Tracing (initial [])" "Tracing ((initial [])\<lparr>Callstack_depth := 7\<rparr>)"
    by (simp_all add: initial_def)
  have a: "map_option fst (print_trace (example_world []) [1, 2, 3] 3 ''ENTER'' (initial []))
             = Some 1"
    by code_simp
  have b: "map_option fst
             (print_trace (example_world [(''TRACY_EXFUNS'', ''foo'')]) [1, 2, 3] 3 ''LEAVE''
                ((initial [])\<lparr>Callstack_depth := 7, Callstack_depth := 7 - 1\<rparr>)) = Some 0"
    by code_simp
  have c: "Callstack_depth (initial []) = 0" by (simp add: initial_def)
  from hooks_count_by_result [OF t(1), of "example_world []" "[1, 2, 3]" 3]
       hooks_count_by_result [OF t(2), of "example_world [(''TRACY_EXFUNS'', ''foo'')]" "[1, 2, 3]" 3]
       a b c
  show ?thesis by (auto simp: map_option_case split: option.splits)
qed

text \<open>
  A call of \<open>print_trace\<close> that returns writes at most one trace line, and that line shows
  the value of the depth counter at the call.
\<close>

theorem printed_depth_is_the_counter:
  assumes "print_trace w bt addr dir s = Some (r, s')"
  shows "traces s' = traces s
   \<or> (\<exists>l. traces s' = traces s @ [l] \<and> line_depth l = Some (Callstack_depth s))"
  using assms by (rule print_trace_lines)

theorem printed_depth_is_the_counter_witness:
  "[Trace ''ENTER'' 0 1 ''tgt'' '':'' (Funame ''foo'')] = traces (initial [])
   \<or> (\<exists>l. [Trace ''ENTER'' 0 1 ''tgt'' '':'' (Funame ''foo'')] = traces (initial []) @ [l]
          \<and> line_depth l = Some (Callstack_depth (initial [])))"
proof -
  have p: "map_option (traces \<circ> snd)
             (print_trace (example_world []) [1, 2, 3] 3 ''ENTER'' (initial []))
           = Some [Trace ''ENTER'' 0 1 ''tgt'' '':'' (Funame ''foo'')]"
    by code_simp
  then obtain r t where t:
    "print_trace (example_world []) [1, 2, 3] 3 ''ENTER'' (initial []) = Some (r, t)"
    "traces t = [Trace ''ENTER'' 0 1 ''tgt'' '':'' (Funame ''foo'')]"
    by (cases "print_trace (example_world []) [1, 2, 3] 3 ''ENTER'' (initial [])") auto
  from printed_depth_is_the_counter [OF t(1)] show ?thesis unfolding t(2) .
qed

section \<open>Allocation failure in \<open>mkwords\<close>\<close>

lemma mkwords_loop_fail:
  "j < length (tl (split_colon str)) \<Longrightarrow>
   \<exists>ws. mkwords_loop cs (replicate j True @ False # m)
           \<lparr>hash = hsum cs pre, length_w = of_nat (length pre), word_w = pre @ str\<rparr> str
         = (ws, [Malloc_failed], m) \<and>
        list_all2 (word_ok cs) (take (Suc j) ((pre @ hd (split_colon str)) # tl (split_colon str))) ws"
proof (induction str arbitrary: j pre)
  case Nil
  then show ?case by simp
next
  case (Cons c str)
  show ?case
  proof (cases "c = CHR '':''")
    case False
    with Cons.prems have "j < length (tl (split_colon str))" by simp
    from Cons.IH [OF this, of "pre @ [c]"] False show ?thesis
      by (simp add: hsum_snoc add.commute)
  next
    case True
    have hd: "word_ok cs pre \<lparr>hash = hsum cs pre, length_w = of_nat (length pre), word_w = pre @ c # str\<rparr>"
      by (simp add: word_ok_def)
    show ?thesis
    proof (cases j)
      case 0
      with True hd show ?thesis by simp
    next
      case (Suc i)
      with True Cons.prems have "i < length (tl (split_colon str))" by simp
      from Cons.IH [OF this, of "[]"] obtain ws where
        r: "mkwords_loop cs (replicate i True @ False # m)
              \<lparr>hash = hsum cs [], length_w = of_nat (length ([]::string)), word_w = [] @ str\<rparr> str
            = (ws, [Malloc_failed], m)"
           "list_all2 (word_ok cs) (take (Suc i) (([] @ hd (split_colon str)) # tl (split_colon str))) ws"
        by blast
      have tl: "list_all2 (word_ok cs) (take (Suc i) (split_colon str)) ws"
        using r(2) by (simp add: split_colon_nonempty)
      from True Suc r(1) hd tl show ?thesis
        by (simp add: hsum_def)
    qed
  qed
qed

lemma mkwords_fail:
  assumes "k < length (segments s)"
  shows "\<exists>ws. mkwords cs (replicate k True @ False # m) s = (ws, [Malloc_failed], m)
           \<and> list_all2 (word_ok cs) (take k (segments s)) ws"
proof -
  from assms have ne: "s \<noteq> []" and k: "k < length (split_colon s)"
    by (auto simp: segments_def split: if_splits)
  show ?thesis
  proof (cases k)
    case 0
    with ne show ?thesis by (simp add: mkwords_def)
  next
    case (Suc j)
    with k have "j < length (tl (split_colon s))" by simp
    from mkwords_loop_fail [OF this, of cs m "[]"] Suc ne show ?thesis
      by (auto simp: mkwords_def hsum_def segments_def split_colon_nonempty)
  qed
qed

text \<open>
  Claim C7, as the code has it. When an allocation of \<open>mkwords\<close> fails after \<open>k\<close> that
  succeeded, the diagnostic is written and the list built so far is returned, not
  discarded: it has \<open>k\<close> entries, which stand for the first \<open>k\<close> segments, and
  \<open>match_words\<close> on it matches exactly the basenames among them. So the result is the
  null list exactly when the first allocation is the one that fails.
\<close>

theorem mkwords_malloc_failure:
  assumes "k < length (segments s)" and "length s < 2 ^ 32" and "length x < 2 ^ 32"
  shows "snd (mkwords cs (replicate k True @ False # m) s) = ([Malloc_failed], m)
       \<and> length (fst (mkwords cs (replicate k True @ False # m) s)) = k
       \<and> (fst (mkwords cs (replicate k True @ False # m) s) = []) = (k = 0)
       \<and> list_all2 (word_ok cs) (take k (segments s))
             (fst (mkwords cs (replicate k True @ False # m) s))
       \<and> match_words cs (fst (mkwords cs (replicate k True @ False # m) s)) x =
           (if basename x \<in> set (take k (segments s)) then Some (basename x) else None)"
proof -
  from mkwords_fail [OF assms(1), of cs m] obtain ws where
    ws: "mkwords cs (replicate k True @ False # m) s = (ws, [Malloc_failed], m)"
        "list_all2 (word_ok cs) (take k (segments s)) ws" by blast
  have lb: "length (basename x) < 2 ^ 32"
    using basename_length [of x] assms(3) by simp
  have "\<forall>seg \<in> set (segments s). length seg < 2 ^ 32"
    using split_colon_length [of s] assms(2) by (auto simp: segments_def)
  then have ls: "\<forall>seg \<in> set (take k (segments s)). length seg < 2 ^ 32"
    by (meson in_set_takeD)
  have "match_words cs ws x =
          (if basename x \<in> set (take k (segments s)) then Some (basename x) else None)"
  proof (cases "ws = []")
    case True
    with ws(2) have e: "take k (segments s) = []" by simp
    have "basename x \<notin> set (take k (segments s))" unfolding e by simp
    with True show ?thesis by (simp add: match_words_def)
  next
    case False
    with match_words_loop_ok [OF ws(2) lb ls] show ?thesis
      by (simp add: match_words_def hash_path_basename)
  qed
  moreover have len: "length ws = k"
    using list_all2_lengthD [OF ws(2)] assms(1) by simp
  moreover have "(ws = []) = (k = 0)" using len by auto
  ultimately show ?thesis using ws by simp
qed

theorem mkwords_malloc_failure_witness:
  "snd (mkwords True [True, False] ''liba.so:libb.so'') = ([Malloc_failed], [])
   \<and> length (fst (mkwords True [True, False] ''liba.so:libb.so'')) = 1
   \<and> fst (mkwords True [False] ''liba.so:libb.so'') = []
   \<and> snd (mkwords True [False] ''liba.so:libb.so'') = ([Malloc_failed], [])
   \<and> match_words True (fst (mkwords True [True, False] ''liba.so:libb.so'')) ''/lib/liba.so''
       = Some ''liba.so''
   \<and> match_words True (fst (mkwords True [True, False] ''liba.so:libb.so'')) ''/lib/libb.so''
       = None"
proof -
  have s: "segments ''liba.so:libb.so'' = [''liba.so'', ''libb.so'']" by code_simp
  have k: "1 < length (segments ''liba.so:libb.so'')" unfolding s by simp
  have l: "length ''liba.so:libb.so'' < 2 ^ 32" "length ''/lib/liba.so'' < 2 ^ 32"
    "length ''/lib/libb.so'' < 2 ^ 32" by simp_all
  have a: "basename ''/lib/liba.so'' = ''liba.so''" by code_simp
  have b: "basename ''/lib/libb.so'' = ''libb.so''" by code_simp
  have k0: "0 < length (segments ''liba.so:libb.so'')" unfolding s by simp
  have r: "replicate 1 True @ False # [] = [True, False]"
    "replicate 0 True @ False # [] = [False]" by simp_all
  from mkwords_malloc_failure [OF k l(1) l(2), of True "[]"]
       mkwords_malloc_failure [OF k l(1) l(3), of True "[]"]
       mkwords_malloc_failure [OF k0 l(1) l(2), of True "[]"]
  show ?thesis unfolding a b s r by simp
qed

theorem mkwords_partial_counterexample:
  "fst (mkwords True [True, False] ''liba.so:libb.so'') \<noteq> []
   \<and> fst (report_dso (example_world [(''TRACY_INLIBS'', ''liba.so:libb.so'')]) ''/lib/liba.so''
           (initial [True, False])) = Some ''liba.so''
   \<and> fst (report_dso (example_world [(''TRACY_INLIBS'', ''liba.so:libb.so'')]) ''/lib/libb.so''
           (initial [True, False])) = None
   \<and> fst (report_dso (example_world [(''TRACY_INLIBS'', ''liba.so:libb.so'')]) ''/lib/libb.so''
           (initial [False])) = Some ''libb.so''"
  by code_simp

section \<open>The grammar of extended globs\<close>

text \<open>
  The pattern grammar in the specification's words. A pattern is an alternation: one or
  more alternatives separated by \<open>:\<close>. An alternative is a sequence of items. An item is
  a literal character (any character that is not one of the five operators), \<open>?\<close>,
  \<open>*\<close>, or a parenthesised alternation. \<open>pr_alts\<close> is the text of a pattern, and
  \<open>L_alts\<close> the set of strings it derives: a literal derives itself, \<open>?\<close> any one
  character, \<open>*\<close> any run of characters, a group what one of its alternatives derives, a
  sequence the concatenations of what its items derive.
\<close>

datatype item = Lit char | Quest | Star | Group alts
  and seq = Nil_s | Cons_s item seq
  and alts = One seq | Or seq alts

primrec pr_item :: "item \<Rightarrow> string" and pr_seq :: "seq \<Rightarrow> string" and pr_alts :: "alts \<Rightarrow> string" where
  "pr_item (Lit c) = [c]"
| "pr_item Quest = ''?''"
| "pr_item Star = ''*''"
| "pr_item (Group a) = ''('' @ pr_alts a @ '')''"
| "pr_seq Nil_s = []"
| "pr_seq (Cons_s i s) = pr_item i @ pr_seq s"
| "pr_alts (One s) = pr_seq s"
| "pr_alts (Or s a) = pr_seq s @ '':'' @ pr_alts a"

text \<open>The five operator characters; a literal is none of them.\<close>

definition special :: "char \<Rightarrow> bool" where
  "special c = (c \<in> {CHR ''('', CHR '')'', CHR '':'', CHR ''*'', CHR ''?''})"

primrec wf_item :: "item \<Rightarrow> bool" and wf_seq :: "seq \<Rightarrow> bool" and wf_alts :: "alts \<Rightarrow> bool" where
  "wf_item (Lit c) = (\<not> special c)"
| "wf_item Quest = True"
| "wf_item Star = True"
| "wf_item (Group a) = wf_alts a"
| "wf_seq Nil_s = True"
| "wf_seq (Cons_s i s) = (wf_item i \<and> wf_seq s)"
| "wf_alts (One s) = wf_seq s"
| "wf_alts (Or s a) = (wf_seq s \<and> wf_alts a)"

text \<open>Concatenation of two sets of strings, and what a pattern derives.\<close>

definition conc :: "string set \<Rightarrow> string set \<Rightarrow> string set" where
  "conc A B = {u @ v | u v. u \<in> A \<and> v \<in> B}"

primrec L_item :: "item \<Rightarrow> string set" and L_seq :: "seq \<Rightarrow> string set" and L_alts :: "alts \<Rightarrow> string set" where
  "L_item (Lit c) = {[c]}"
| "L_item Quest = {t. length t = 1}"
| "L_item Star = UNIV"
| "L_item (Group a) = L_alts a"
| "L_seq Nil_s = {[]}"
| "L_seq (Cons_s i s) = conc (L_item i) (L_seq s)"
| "L_alts (One s) = L_seq s"
| "L_alts (Or s a) = L_seq s \<union> L_alts a"

text \<open>
  A pattern string is generated by the grammar when it is the text of a well-formed
  pattern, and it derives \<open>t\<close> when such a pattern derives \<open>t\<close>. A string with
  unbalanced parentheses is the text of no pattern.
\<close>

definition generated :: "string \<Rightarrow> bool" where
  "generated p = (\<exists>a. wf_alts a \<and> pr_alts a = p)"

definition derives :: "string \<Rightarrow> string \<Rightarrow> bool" where
  "derives p t = (\<exists>a. wf_alts a \<and> pr_alts a = p \<and> t \<in> L_alts a)"

subsection \<open>The scanner over a well-formed piece\<close>

text \<open>
  \<open>find_end_of_glob\<close> looking for \<open>:\<close> or \<open>)\<close> passes over the text of an item or of a
  sequence and comes out at the depth it went in with, as long as the \<open>unsigned\<close> depth
  cannot wrap; it passes over an alternation when it is inside a group or looks for \<open>)\<close>.
\<close>

lemma feg_step_plain:
  "x \<noteq> CHR ''('' \<Longrightarrow> x \<noteq> CHR '')'' \<Longrightarrow> x \<noteq> c \<Longrightarrow>
   find_end_of_glob_loop d (x # str) c = find_end_of_glob_loop d str c"
  by simp

lemma unat_suc: "unat (d :: unsigned) + 1 < 2 ^ 32 \<Longrightarrow> unat (d + 1) = unat d + 1"
  using unat_add_lem [of d 1] by simp

lemma feg_skip:
  fixes c :: char
  assumes c: "c = CHR '':'' \<or> c = CHR '')''"
  shows "wf_item i \<Longrightarrow> unat d + length (pr_item i) < 2 ^ 32 \<Longrightarrow>
           find_end_of_glob_loop d (pr_item i @ rest) c = find_end_of_glob_loop d rest c"
    and "wf_seq s \<Longrightarrow> unat d + length (pr_seq s) < 2 ^ 32 \<Longrightarrow>
           find_end_of_glob_loop d (pr_seq s @ rest) c = find_end_of_glob_loop d rest c"
    and "wf_alts a \<Longrightarrow> unat d + length (pr_alts a) < 2 ^ 32 \<Longrightarrow> d \<noteq> 0 \<or> c = CHR '')'' \<Longrightarrow>
           find_end_of_glob_loop d (pr_alts a @ rest) c = find_end_of_glob_loop d rest c"
proof (induction i and s and a arbitrary: d rest and d rest and d rest)
  case (Lit x)
  then show ?case using c by (auto simp: special_def)
next
  case Quest
  then show ?case using c by auto
next
  case Star
  then show ?case using c by auto
next
  case (Group a)
  have b: "unat d + 1 < 2 ^ 32" using Group.prems(2) by simp
  then have u: "unat (d + 1) = unat d + 1" by (rule unat_suc)
  then have nz: "d + 1 \<noteq> 0" by (metis Suc_eq_plus1 nat.simps(3) unat_0)
  have pos: "0 < d + 1" using nz by (simp add: word_neq_0_conv)
  have l: "unat (d + 1) + length (pr_alts a) < 2 ^ 32" using Group.prems(2) u by simp
  have "find_end_of_glob_loop d (pr_item (Group a) @ rest) c
      = find_end_of_glob_loop (d + 1) (pr_alts a @ CHR '')'' # rest) c"
    using c by auto
  also have "\<dots> = find_end_of_glob_loop (d + 1) (CHR '')'' # rest) c"
    using Group.IH [of "d + 1" "CHR '')'' # rest"] Group.prems(1) l nz by simp
  also have "\<dots> = find_end_of_glob_loop d rest c"
    using nz pos by simp
  finally show ?case .
next
  case Nil_s
  then show ?case by simp
next
  case (Cons_s i s)
  from Cons_s.prems have 1: "wf_item i" "unat d + length (pr_item i) < 2 ^ 32"
    and 2: "wf_seq s" "unat d + length (pr_seq s) < 2 ^ 32" by simp_all
  show ?case
    using Cons_s.IH(1) [OF 1, of "pr_seq s @ rest"] Cons_s.IH(2) [OF 2, of rest] by simp
next
  case (One s)
  then show ?case by simp
next
  case (Or s a)
  from Or.prems have 1: "wf_seq s" "unat d + length (pr_seq s) < 2 ^ 32"
    and 2: "wf_alts a" "unat d + length (pr_alts a) < 2 ^ 32" by simp_all
  have "find_end_of_glob_loop d (pr_alts (Or s a) @ rest) c
      = find_end_of_glob_loop d (CHR '':'' # pr_alts a @ rest) c"
    using Or.IH(1) [OF 1, of "CHR '':'' # pr_alts a @ rest"] by simp
  also have "\<dots> = find_end_of_glob_loop d (pr_alts a @ rest) c"
    using Or.prems(3) by auto
  also have "\<dots> = find_end_of_glob_loop d rest c"
    using Or.IH(2) [OF 2 Or.prems(3)] .
  finally show ?case .
qed

subsection \<open>The matcher against the grammar\<close>

text \<open>
  The recursive equations of the matcher are unfolded by hand from here on.
\<close>

declare match_glob.simps(2) [simp del] match_star.simps [simp del] match_eglob.simps [simp del]

lemma conc_assoc: "conc (conc A B) C = conc A (conc B C)"
  unfolding conc_def by (auto, metis append_assoc, metis append_assoc)

lemma conc_eps [simp]: "conc {[]} M = M"
  unfolding conc_def by auto

lemma conc_Un: "conc (A \<union> B) M = conc A M \<union> conc B M"
  unfolding conc_def by auto

lemma conc_single: "t \<in> conc {[c]} M \<longleftrightarrow> (\<exists>t'. t = c # t' \<and> t' \<in> M)"
  unfolding conc_def by auto

lemma conc_any: "t \<in> conc {t. length t = Suc 0} M \<longleftrightarrow> (\<exists>c t'. t = c # t' \<and> t' \<in> M)"
proof
  assume "t \<in> conc {t. length t = Suc 0} M"
  then show "\<exists>c t'. t = c # t' \<and> t' \<in> M"
    unfolding conc_def by (auto simp: length_Suc_conv)
next
  assume "\<exists>c t'. t = c # t' \<and> t' \<in> M"
  then obtain c t' where "t = [c] @ t'" "length [c] = Suc 0" "t' \<in> M" by auto
  then show "t \<in> conc {t. length t = Suc 0} M"
    unfolding conc_def by blast
qed

lemma conc_UNIV: "t \<in> conc UNIV M \<longleftrightarrow> (\<exists>u v. t = u @ v \<and> v \<in> M)"
  unfolding conc_def by auto

lemma match_glob_lit:
  "\<not> special c \<Longrightarrow> match_glob (c # pat) t \<longleftrightarrow> (\<exists>t'. t = c # t' \<and> match_glob pat t')"
  by (cases t) (auto simp: match_glob.simps(2) special_def)

lemma match_glob_quest:
  "match_glob (CHR ''?'' # pat) t \<longleftrightarrow> (\<exists>c t'. t = c # t' \<and> match_glob pat t')"
  by (cases t) (auto simp: match_glob.simps(2))

lemma match_glob_star: "match_glob (CHR ''*'' # pat) t = match_star pat t"
  by (simp add: match_glob.simps(2))

lemma match_glob_open: "match_glob (CHR ''('' # pat) t = match_eglob pat t"
  by (simp add: match_glob.simps(2))

lemma match_glob_close: "match_glob (CHR '')'' # pat) t = match_glob pat t"
  by (simp add: match_glob.simps(2))

lemma match_glob_colon:
  "match_glob (CHR '':'' # pat) t =
     (case find_end_of_glob (CHR '':'' # pat) (CHR '')'') of
        Some pattern' \<Rightarrow> match_glob pattern' t | None \<Rightarrow> t = [])"
  by (simp add: match_glob.simps(2))

lemma match_star_iff: "match_star pat t \<longleftrightarrow> (\<exists>u v. t = u @ v \<and> match_glob pat v)"
proof (induction t)
  case Nil
  then show ?case by (subst match_star.simps) auto
next
  case (Cons c t)
  have "match_star pat (c # t) \<longleftrightarrow> match_glob pat (c # t) \<or> match_star pat t"
    by (subst match_star.simps) auto
  also have "\<dots> \<longleftrightarrow> match_glob pat (c # t) \<or> (\<exists>u v. t = u @ v \<and> match_glob pat v)"
    using Cons.IH by simp
  also have "\<dots> \<longleftrightarrow> (\<exists>u v. c # t = u @ v \<and> match_glob pat v)"
  proof
    assume "match_glob pat (c # t) \<or> (\<exists>u v. t = u @ v \<and> match_glob pat v)"
    then show "\<exists>u v. c # t = u @ v \<and> match_glob pat v"
    proof
      assume "match_glob pat (c # t)"
      then have "c # t = [] @ (c # t) \<and> match_glob pat (c # t)" by simp
      then show ?thesis by blast
    next
      assume "\<exists>u v. t = u @ v \<and> match_glob pat v"
      then obtain u v where "t = u @ v" "match_glob pat v" by blast
      then have "c # t = (c # u) @ v \<and> match_glob pat v" by simp
      then show ?thesis by blast
    qed
  next
    assume "\<exists>u v. c # t = u @ v \<and> match_glob pat v"
    then obtain u v where uv: "c # t = u @ v" "match_glob pat v" by blast
    show "match_glob pat (c # t) \<or> (\<exists>u v. t = u @ v \<and> match_glob pat v)"
    proof (cases u)
      case Nil
      with uv show ?thesis by simp
    next
      case (Cons x u')
      with uv have "t = u' @ v" by simp
      with uv(2) show ?thesis by blast
    qed
  qed
  finally show ?case .
qed

lemma feg_seq0:
  assumes "wf_seq s" and "length (pr_seq s) < 2 ^ 32" and "c = CHR '':'' \<or> c = CHR '')''"
  shows "find_end_of_glob (pr_seq s @ rest) c = find_end_of_glob rest c"
  unfolding find_end_of_glob_def
  using feg_skip(2) [OF assms(3) assms(1), of 0 rest] assms(2) by simp

lemma feg_alts0:
  assumes "wf_alts a" and "length (pr_alts a) < 2 ^ 32"
  shows "find_end_of_glob (pr_alts a @ rest) (CHR '')'') = find_end_of_glob rest (CHR '')'')"
  unfolding find_end_of_glob_def
  using feg_skip(3) [OF _ assms(1), of "CHR '')''" 0 rest] assms(2) by simp

lemma feg_found [simp]: "find_end_of_glob (c # rest) c = Some rest"
  by (simp add: find_end_of_glob_def)

lemma feg_nil [simp]: "find_end_of_glob [] c = None"
  by (simp add: find_end_of_glob_def)

lemma feg_colon_at_close [simp]: "find_end_of_glob (CHR '')'' # rest) (CHR '':'') = None"
  by (simp add: find_end_of_glob_def)

lemma feg_close_after_colon:
  "find_end_of_glob (CHR '':'' # rest) (CHR '')'') = find_end_of_glob rest (CHR '')'')"
  by (simp add: find_end_of_glob_def)

text \<open>
  A colon met by \<open>match_glob\<close>: the alternative is done; inside a group the match goes on
  after the group, at the top level the string must be at its end.
\<close>

lemma match_glob_skip:
  assumes "wf_alts a" and "length (pr_alts a) < 2 ^ 32"
  shows "match_glob (CHR '':'' # pr_alts a @ CHR '')'' # cont) t = match_glob cont t"
    and "match_glob (CHR '':'' # pr_alts a) t = (t = [])"
proof -
  show "match_glob (CHR '':'' # pr_alts a @ CHR '')'' # cont) t = match_glob cont t"
    unfolding match_glob_colon feg_close_after_colon feg_alts0 [OF assms] by simp
  have "find_end_of_glob (pr_alts a @ []) (CHR '')'') = None"
    unfolding feg_alts0 [OF assms] by simp
  then show "match_glob (CHR '':'' # pr_alts a) t = (t = [])"
    unfolding match_glob_colon feg_close_after_colon by simp
qed

text \<open>
  The matcher on the text of a piece followed by \<open>rest\<close>, when \<open>match_glob\<close> on \<open>rest\<close>
  accepts the set \<open>M\<close>: it accepts what the piece derives followed by a string of \<open>M\<close>.
\<close>

lemma match_glob_sem:
  "wf_item i \<Longrightarrow> length (pr_item i) < 2 ^ 32 \<Longrightarrow> (\<And>t. match_glob rest t \<longleftrightarrow> t \<in> M) \<Longrightarrow>
     match_glob (pr_item i @ rest) t \<longleftrightarrow> t \<in> conc (L_item i) M"
  "wf_seq s \<Longrightarrow> length (pr_seq s) < 2 ^ 32 \<Longrightarrow> (\<And>t. match_glob rest t \<longleftrightarrow> t \<in> M) \<Longrightarrow>
     match_glob (pr_seq s @ rest) t \<longleftrightarrow> t \<in> conc (L_seq s) M"
  "wf_alts a \<Longrightarrow> length (pr_alts a) < 2 ^ 32 \<Longrightarrow> (\<And>t. match_glob cont t \<longleftrightarrow> t \<in> M) \<Longrightarrow>
     match_eglob (pr_alts a @ CHR '')'' # cont) t \<longleftrightarrow> t \<in> conc (L_alts a) M"
proof (induction i and s and a arbitrary: rest M t and rest M t and cont M t)
  case (Lit c)
  then show ?case by (simp add: match_glob_lit conc_single)
next
  case Quest
  then show ?case by (simp add: match_glob_quest conc_any)
next
  case Star
  then show ?case by (simp add: match_glob_star match_star_iff conc_UNIV)
next
  case (Group a)
  have "match_glob (pr_item (Group a) @ rest) t = match_eglob (pr_alts a @ CHR '')'' # rest) t"
    by (simp add: match_glob_open)
  also have "\<dots> \<longleftrightarrow> t \<in> conc (L_alts a) M"
    using Group.prems by (intro Group.IH) simp_all
  finally show ?case by simp
next
  case Nil_s
  then show ?case by simp
next
  case (Cons_s i s)
  have s: "\<And>t. match_glob (pr_seq s @ rest) t \<longleftrightarrow> t \<in> conc (L_seq s) M"
    using Cons_s.prems by (intro Cons_s.IH(2)) simp_all
  have "match_glob (pr_item i @ pr_seq s @ rest) t \<longleftrightarrow> t \<in> conc (L_item i) (conc (L_seq s) M)"
    using Cons_s.prems s by (intro Cons_s.IH(1)) simp_all
  then show ?case by (simp add: conc_assoc)
next
  case (One s)
  have w: "wf_seq s" "length (pr_seq s) < 2 ^ 32" using One.prems by simp_all
  have c: "\<And>t. match_glob (CHR '')'' # cont) t \<longleftrightarrow> t \<in> M"
    using One.prems(3) by (simp add: match_glob_close)
  have f: "find_end_of_glob (pr_seq s @ CHR '')'' # cont) (CHR '':'') = None"
    unfolding feg_seq0 [OF w, of "CHR '':''", simplified] by simp
  have "match_eglob (pr_alts (One s) @ CHR '')'' # cont) t
      = match_glob (pr_seq s @ CHR '')'' # cont) t"
    by (subst match_eglob.simps) (simp add: f)
  also have "\<dots> \<longleftrightarrow> t \<in> conc (L_seq s) M"
    using w c by (intro One.IH) simp_all
  finally show ?case by simp
next
  case (Or s a)
  have w: "wf_seq s" "length (pr_seq s) < 2 ^ 32"
    and wa: "wf_alts a" "length (pr_alts a) < 2 ^ 32" using Or.prems by simp_all
  let ?rest = "CHR '':'' # pr_alts a @ CHR '')'' # cont"
  have c: "\<And>t. match_glob ?rest t \<longleftrightarrow> t \<in> M"
    using Or.prems(3) by (simp add: match_glob_skip(1) [OF wa])
  have f: "find_end_of_glob (pr_seq s @ ?rest) (CHR '':'') = Some (pr_alts a @ CHR '')'' # cont)"
    unfolding feg_seq0 [OF w, of "CHR '':''", simplified] by simp
  have 1: "match_glob (pr_seq s @ ?rest) t \<longleftrightarrow> t \<in> conc (L_seq s) M"
    using w c by (intro Or.IH(1)) simp_all
  have 2: "match_eglob (pr_alts a @ CHR '')'' # cont) t \<longleftrightarrow> t \<in> conc (L_alts a) M"
    using wa Or.prems(3) by (intro Or.IH(2)) simp_all
  have "match_eglob (pr_alts (Or s a) @ CHR '')'' # cont) t
      \<longleftrightarrow> match_glob (pr_seq s @ ?rest) t \<or> match_eglob (pr_alts a @ CHR '')'' # cont) t"
    by (subst match_eglob.simps) (simp add: f)
  then show ?case using 1 2 by (simp add: conc_Un)
qed

lemma conc_eps_right [simp]: "conc A {[]} = A"
  unfolding conc_def by auto

lemma match_eglob_top:
  "wf_alts a \<Longrightarrow> length (pr_alts a) < 2 ^ 32 \<Longrightarrow> match_eglob (pr_alts a) t \<longleftrightarrow> t \<in> L_alts a"
proof (induction a rule: alts.induct
         [where ?P1.0 = "\<lambda>i. True" and ?P2.0 = "\<lambda>s. True"])
  case (One s)
  have w: "wf_seq s" "length (pr_seq s) < 2 ^ 32" using One.prems by simp_all
  have f: "find_end_of_glob (pr_seq s @ []) (CHR '':'') = None"
    unfolding feg_seq0 [OF w, of "CHR '':''", simplified] by simp
  have "match_eglob (pr_alts (One s)) t = match_glob (pr_seq s @ []) t"
    using f by (subst match_eglob.simps) simp
  also have "\<dots> \<longleftrightarrow> t \<in> conc (L_seq s) {[]}"
    using w by (intro match_glob_sem(2)) simp_all
  finally show ?case by simp
next
  case (Or s a)
  have w: "wf_seq s" "length (pr_seq s) < 2 ^ 32"
    and wa: "wf_alts a" "length (pr_alts a) < 2 ^ 32" using Or.prems by simp_all
  let ?rest = "CHR '':'' # pr_alts a"
  have c: "\<And>t. match_glob ?rest t \<longleftrightarrow> t \<in> {[]}"
    by (simp add: match_glob_skip(2) [OF wa])
  have f: "find_end_of_glob (pr_seq s @ ?rest) (CHR '':'') = Some (pr_alts a)"
    unfolding feg_seq0 [OF w, of "CHR '':''", simplified] by simp
  have 1: "match_glob (pr_seq s @ ?rest) t \<longleftrightarrow> t \<in> conc (L_seq s) {[]}"
    using w c by (intro match_glob_sem(2)) simp_all
  have 2: "match_eglob (pr_alts a) t \<longleftrightarrow> t \<in> L_alts a"
    using wa by (rule Or.IH)
  have "match_eglob (pr_alts (Or s a)) t
      \<longleftrightarrow> match_glob (pr_seq s @ ?rest) t \<or> match_eglob (pr_alts a) t"
    by (subst match_eglob.simps) (simp add: f)
  then show ?case using 1 2 by simp
qed simp_all

lemma match_eglob_derives:
  assumes "generated p" and "length p < 2 ^ 32"
  shows "match_eglob p t \<longleftrightarrow> derives p t"
proof
  assume m: "match_eglob p t"
  from assms(1) obtain a where a: "wf_alts a" "pr_alts a = p" by (auto simp: generated_def)
  with m assms(2) have "t \<in> L_alts a" using match_eglob_top [of a t] by simp
  with a show "derives p t" by (auto simp: derives_def)
next
  assume "derives p t"
  then obtain a where a: "wf_alts a" "pr_alts a = p" "t \<in> L_alts a"
    by (auto simp: derives_def)
  with assms(2) show "match_eglob p t" using match_eglob_top [of a t] by simp
qed

lemma generatedI: "wf_alts a \<Longrightarrow> pr_alts a = p \<Longrightarrow> generated p"
  by (auto simp: generated_def)

lemma not_special [simp]:
  "\<not> special (CHR ''a'')" "\<not> special (CHR ''b'')" "\<not> special (CHR ''c'')" "\<not> special (CHR ''d'')"
  by (simp_all add: special_def)

lemma exactly_a_or_b: "match_eglob ''a:b'' t \<longleftrightarrow> t = ''a'' \<or> t = ''b''"
proof -
  let ?a = "Or (Cons_s (Lit (CHR ''a'')) Nil_s) (One (Cons_s (Lit (CHR ''b'')) Nil_s))"
  have "match_eglob (pr_alts ?a) t \<longleftrightarrow> t \<in> L_alts ?a"
    by (rule match_eglob_top) simp_all
  then show ?thesis by (auto simp: conc_def)
qed

lemma exactly_abd_or_acd: "match_eglob ''a(b:c)d'' t \<longleftrightarrow> t = ''abd'' \<or> t = ''acd''"
proof -
  let ?a = "One (Cons_s (Lit (CHR ''a''))
              (Cons_s (Group (Or (Cons_s (Lit (CHR ''b'')) Nil_s) (One (Cons_s (Lit (CHR ''c'')) Nil_s))))
                (Cons_s (Lit (CHR ''d'')) Nil_s)))"
  have "match_eglob (pr_alts ?a) t \<longleftrightarrow> t \<in> L_alts ?a"
    by (rule match_eglob_top) simp_all
  then show ?thesis by (auto simp: conc_def)
qed

lemma exactly_abc_or_ac: "match_eglob ''a(b:)c'' t \<longleftrightarrow> t = ''abc'' \<or> t = ''ac''"
proof -
  let ?a = "One (Cons_s (Lit (CHR ''a''))
              (Cons_s (Group (Or (Cons_s (Lit (CHR ''b'')) Nil_s) (One Nil_s)))
                (Cons_s (Lit (CHR ''c'')) Nil_s)))"
  have "match_eglob (pr_alts ?a) t \<longleftrightarrow> t \<in> L_alts ?a"
    by (rule match_eglob_top) simp_all
  then show ?thesis by (auto simp: conc_def)
qed

lemma star_matches_empty: "match_eglob ''*'' []"
  by code_simp

lemma quest_needs_a_character: "\<not> match_glob (CHR ''?'' # rest) []"
  by (simp add: match_glob_quest)

lemma quest_alone: "\<not> match_eglob ''?'' []"
  by code_simp

text \<open>
  Claim C2, as the code has it. For every pattern string \<open>p\<close> that the grammar generates
  (shorter than \<open>2^32\<close> bytes) and every string \<open>t\<close>, \<open>match_eglob\<close> accepts \<open>t\<close> under
  \<open>p\<close> exactly when the grammar derives \<open>t\<close> from \<open>p\<close>. In particular \<open>*\<close> matches the
  empty string, \<open>a:b\<close> matches exactly \<open>a\<close> and \<open>b\<close>, \<open>a(b:c)d\<close> exactly \<open>abd\<close> and
  \<open>acd\<close>, \<open>a(b:)c\<close> exactly \<open>abc\<close> and \<open>ac\<close>, and \<open>?\<close> does not match at the end of
  the string. (For a string with unbalanced parentheses the grammar derives nothing, and
  the matcher may still accept: see the counterexample.)
\<close>

theorem match_eglob_grammar:
  assumes "generated p" and "length p < 2 ^ 32"
  shows "(match_eglob p t \<longleftrightarrow> derives p t)
       \<and> match_eglob ''*'' []
       \<and> (\<forall>u. match_eglob ''a:b'' u \<longleftrightarrow> u = ''a'' \<or> u = ''b'')
       \<and> (\<forall>u. match_eglob ''a(b:c)d'' u \<longleftrightarrow> u = ''abd'' \<or> u = ''acd'')
       \<and> (\<forall>u. match_eglob ''a(b:)c'' u \<longleftrightarrow> u = ''abc'' \<or> u = ''ac'')
       \<and> (\<forall>rest. \<not> match_glob (CHR ''?'' # rest) [])
       \<and> \<not> match_eglob ''?'' []"
  using match_eglob_derives [OF assms] star_matches_empty exactly_a_or_b exactly_abd_or_acd
    exactly_abc_or_ac quest_needs_a_character quest_alone
  by blast

theorem match_eglob_grammar_witness:
  "derives ''foo_*:bar_(alpha:beta)'' ''bar_beta''
   \<and> \<not> derives ''foo_*:bar_(alpha:beta)'' ''bar_gamma''"
proof -
  let ?l = "\<lambda>cs. foldr (\<lambda>c s. Cons_s (Lit c) s) cs"
  let ?a = "Or (?l ''foo_'' (Cons_s Star Nil_s))
              (One (?l ''bar_'' (Cons_s (Group (Or (?l ''alpha'' Nil_s) (One (?l ''beta'' Nil_s)))) Nil_s)))"
  have w: "wf_alts ?a" by (simp add: special_def)
  have p: "pr_alts ?a = ''foo_*:bar_(alpha:beta)''" by simp
  have g: "generated ''foo_*:bar_(alpha:beta)''" using w p by (rule generatedI)
  have l: "length ''foo_*:bar_(alpha:beta)'' < 2 ^ 32" by simp
  have 1: "match_eglob ''foo_*:bar_(alpha:beta)'' ''bar_beta''" by code_simp
  have 2: "\<not> match_eglob ''foo_*:bar_(alpha:beta)'' ''bar_gamma''" by code_simp
  from match_eglob_grammar [OF g l, of "''bar_beta''"]
       match_eglob_grammar [OF g l, of "''bar_gamma''"] 1 2
  show ?thesis by blast
qed

text \<open>
  The text of a well-formed pattern has as many \<open>(\<close> as \<open>)\<close>. The matcher skips a
  \<open>)\<close> that closes nothing, so \<open>a)b\<close> accepts \<open>ab\<close>; and a \<open>:\<close> at depth 0 followed
  by such a \<open>)\<close> does not end its alternative, so \<open>a:b)c\<close> rejects \<open>a\<close>.
\<close>

lemma pr_balanced:
  "wf_item i \<Longrightarrow> count_list (pr_item i) (CHR ''('') = count_list (pr_item i) (CHR '')'')"
  "wf_seq s \<Longrightarrow> count_list (pr_seq s) (CHR ''('') = count_list (pr_seq s) (CHR '')'')"
  "wf_alts a \<Longrightarrow> count_list (pr_alts a) (CHR ''('') = count_list (pr_alts a) (CHR '')'')"
  by (induction i and s and a) (auto simp: special_def)

lemma generated_balanced:
  "generated p \<Longrightarrow> count_list p (CHR ''('') = count_list p (CHR '')'')"
  by (auto simp: generated_def pr_balanced)

theorem unbalanced_pattern_counterexample:
  "match_eglob ''a)b'' ''ab'' \<and> \<not> derives ''a)b'' ''ab''
   \<and> match_eglob ''a'' ''a'' \<and> \<not> match_eglob ''a:b)c'' ''a''"
proof -
  have 1: "match_eglob ''a)b'' ''ab''" by code_simp
  have "\<not> generated ''a)b''"
  proof
    assume "generated ''a)b''"
    from generated_balanced [OF this] show False by simp
  qed
  then have 2: "\<not> derives ''a)b'' ''ab''" by (auto simp: derives_def generated_def)
  have 3: "match_eglob ''a'' ''a''" by code_simp
  have 4: "\<not> match_eglob ''a:b)c'' ''a''" by code_simp
  from 1 2 3 4 show ?thesis by blast
qed

end
